theory Spec2Isabelle
  imports Main "HOL-Library.Word"
begin

unbundle bit_operations_syntax

section \<open>Data model (dbf\_reader.hpp)\<close>

text \<open>
  Memory is a list of bytes; a pointer into the table's buffer is an index into that list.
  The structures \<open>DB_HEADER\<close> and \<open>DB_FIELD\<close> are 32 bytes each and are filled by
  \<open>memcpy\<close> from the buffer, so every member is decoded from the bytes at its offset.
\<close>

type_synonym byte = "8 word"

definition slice :: "nat \<Rightarrow> nat \<Rightarrow> 'a list \<Rightarrow> 'a list" where
  "slice off n xs = take n (drop off xs)"

record DB_HEADER =
  version :: byte
  last_update :: "byte list"
  records :: "32 word"
  header_length :: "16 word"
  record_length :: "16 word"
  reserved01 :: "byte list"
  transaction :: byte
  encryption :: byte
  reserved02 :: "byte list"
  header_mdx :: byte
  language :: byte
  reserved03 :: "byte list"

record DB_FIELD =
  field_name :: "byte list"
  field_type :: byte
  field_address :: "32 word"
  field_length :: byte
  field_decimals :: byte
  reserved1 :: "byte list"
  field_offset :: "32 word"
  reserved2 :: "byte list"
  field_mdx :: byte

record DBF =
  mem_buffer :: "byte list"
  header :: "DB_HEADER option"
  dbf_fields :: "DB_FIELD list"
  columns :: nat
  encoding :: string

text \<open>
  What a call can end in besides its value: \<open>Failure\<close> is the error return of the source
  (\<open>-1\<close>, \<open>false\<close>, an error status); \<open>OutOfBounds\<close> is an access outside the buffer and
  \<open>NullPointer\<close> a dereference of the unset \<open>header\<close>, both undefined behaviour in C++.
\<close>

datatype fault = Failure | OutOfBounds | NullPointer

section \<open>Header parsing (dbf\_reader.cpp)\<close>

text \<open>
  \<open>rotate2b\<close> and \<open>rotate4b\<close> read the object representation of their argument byte by
  byte, lowest address first, so applied to a value that was copied from the buffer they
  give the little-endian reading of the copied bytes on every host. The argument is
  therefore the list of the bytes in memory order.
\<close>

definition rotate2b :: "byte list \<Rightarrow> 16 word" where
  "rotate2b ptmp = push_bit 8 (ucast (ptmp ! 1)) + ucast (ptmp ! 0)"

definition rotate4b :: "byte list \<Rightarrow> 32 word" where
  "rotate4b ptmp = push_bit 24 (ucast (ptmp ! 3)) + push_bit 16 (ucast (ptmp ! 2))
                   + push_bit 8 (ucast (ptmp ! 1)) + ucast (ptmp ! 0)"

text \<open>
  Members that the source uses as copied (\<open>record_length\<close>, \<open>field_address\<close>, the on-disk
  bytes under \<open>field_offset\<close>) have the host's byte order; the host is little-endian.
\<close>

definition host16 :: "byte list \<Rightarrow> 16 word" where
  "host16 bs = push_bit 8 (ucast (bs ! 1)) + ucast (bs ! 0)"

definition host32 :: "byte list \<Rightarrow> 32 word" where
  "host32 bs = push_bit 24 (ucast (bs ! 3)) + push_bit 16 (ucast (bs ! 2))
               + push_bit 8 (ucast (bs ! 1)) + ucast (bs ! 0)"

definition sizeof_DB_HEADER :: nat where
  "sizeof_DB_HEADER = 32"

definition sizeof_DB_FIELD :: nat where
  "sizeof_DB_FIELD = 32"

text \<open>The \<open>memcpy\<close> into a \<open>DB_HEADER\<close> followed by the two byte-order corrections.\<close>

definition copy_header :: "byte list \<Rightarrow> DB_HEADER" where
  "copy_header b =
     \<lparr> version = b ! 0,
       last_update = slice 1 3 b,
       records = rotate4b (slice 4 4 b),
       header_length = rotate2b (slice 8 2 b),
       record_length = host16 (slice 10 2 b),
       reserved01 = slice 12 2 b,
       transaction = b ! 14,
       encryption = b ! 15,
       reserved02 = slice 16 12 b,
       header_mdx = b ! 28,
       language = b ! 29,
       reserved03 = slice 30 2 b \<rparr>"

definition language_encoding :: "byte \<Rightarrow> string" where
  "language_encoding l =
     (if l = 0x01 then ''CP437''
      else if l = 0x02 then ''CP850''
      else if l = 0x03 then ''CP852''
      else if l = 0x65 then ''CP1252''
      else ''CP850'')"

definition dbf_ReadHeaderInfo :: "DBF \<Rightarrow> fault + DBF" where
  "dbf_ReadHeaderInfo dbf =
     (if length (mem_buffer dbf) < sizeof_DB_HEADER then Inl Failure
      else let header_ptr = copy_header (take sizeof_DB_HEADER (mem_buffer dbf))
           in Inr (dbf\<lparr> encoding := language_encoding (language header_ptr),
                        header := Some header_ptr \<rparr>))"

definition dbf_NumCols :: "DBF \<Rightarrow> fault + nat" where
  "dbf_NumCols dbf =
     (case header dbf of
        None \<Rightarrow> Inl NullPointer
      | Some h \<Rightarrow>
          if unat (header_length h) > sizeof_DB_HEADER
          then Inr ((unat (header_length h) - sizeof_DB_HEADER - 1) div sizeof_DB_FIELD)
          else Inr 0)"

definition dbf_NumRows :: "DBF \<Rightarrow> fault + nat" where
  "dbf_NumRows dbf =
     (case header dbf of
        None \<Rightarrow> Inl NullPointer
      | Some h \<Rightarrow> Inr (if unat (records h) > 0 then unat (records h) else 0))"

section \<open>Field catalog (dbf\_reader.cpp)\<close>

definition copy_field :: "byte list \<Rightarrow> DB_FIELD" where
  "copy_field b =
     \<lparr> field_name = slice 0 11 b,
       field_type = b ! 11,
       field_address = host32 (slice 12 4 b),
       field_length = b ! 16,
       field_decimals = b ! 17,
       reserved1 = slice 18 2 b,
       field_offset = host32 (slice 20 4 b),
       reserved2 = slice 24 7 b,
       field_mdx = b ! 31 \<rparr>"

text \<open>The \<open>memcpy\<close> of \<open>col\<close> descriptors: descriptor \<open>i\<close> is the 32 bytes at \<open>32 * i\<close>.\<close>

definition copy_fields :: "nat \<Rightarrow> byte list \<Rightarrow> DB_FIELD list" where
  "copy_fields col src = map (\<lambda>i. copy_field (slice (i * sizeof_DB_FIELD) sizeof_DB_FIELD src)) [0 ..< col]"

text \<open>
  The loop \<open>for (i = 0; i < col; i++) { field_ptr[i].field_offset = offset; offset +=
  field_ptr[i].field_length; }\<close> with \<open>int offset\<close>: the running offset is a 32-bit value,
  stored into the unsigned 32-bit member.
\<close>

fun assign_offsets :: "32 word \<Rightarrow> DB_FIELD list \<Rightarrow> DB_FIELD list" where
  "assign_offsets offset [] = []"
| "assign_offsets offset (f # fs) =
     f\<lparr>field_offset := offset\<rparr> # assign_offsets (offset + ucast (field_length f)) fs"

definition dbf_ReadFieldInfo :: "DBF \<Rightarrow> fault + DBF" where
  "dbf_ReadFieldInfo dbf =
     (if length (mem_buffer dbf) < sizeof_DB_HEADER then Inl Failure
      else case dbf_NumCols dbf of
        Inl e \<Rightarrow> Inl e
      | Inr col \<Rightarrow>
          if col = 0 then Inl Failure
          else if length (mem_buffer dbf) < sizeof_DB_HEADER + col * sizeof_DB_FIELD
            then Inl OutOfBounds
          else Inr (dbf\<lparr> dbf_fields := assign_offsets 1
                                      (copy_fields col (drop sizeof_DB_HEADER (mem_buffer dbf))),
                         columns := col \<rparr>))"

section \<open>Schema (parquet\_write.cpp)\<close>

datatype arrow_type = STRING | INT32 | INT64 | DOUBLE | BOOL | DATE32

text \<open>The \<open>switch\<close> on \<open>field_type\<close>: \<open>'C'\<close> is 0x43, \<open>'N'\<close> 0x4E, \<open>'D'\<close> 0x44, \<open>'L'\<close> 0x4C.\<close>

definition schema_type :: "DB_FIELD \<Rightarrow> arrow_type" where
  "schema_type f =
     (if field_type f = 0x43 then STRING
      else if field_type f = 0x4E then
        (if field_decimals f > 0 then DOUBLE
         else if field_length f \<le> 9 then INT32
         else INT64)
      else if field_type f = 0x44 then DATE32
      else if field_type f = 0x4C then BOOL
      else STRING)"

text \<open>
  The schema is the list of (name, type) pairs of the first \<open>dbf_NumCols\<close> descriptors. The
  name is the C string starting at \<open>field_name\<close>; a name that fills all 11 bytes has no
  terminator inside the member, and the bytes read beyond it are not represented here.
\<close>

definition create_schema :: "DBF \<Rightarrow> fault + (byte list \<times> arrow_type) list" where
  "create_schema dbf =
     (case dbf_NumCols dbf of
        Inl e \<Rightarrow> Inl e
      | Inr cols \<Rightarrow>
          if cols > length (dbf_fields dbf) then Inl OutOfBounds
          else Inr (map (\<lambda>f. (takeWhile (\<lambda>c. c \<noteq> 0) (field_name f), schema_type f))
                        (take cols (dbf_fields dbf))))"


section \<open>Library functions used by the extractor\<close>

text \<open>
  \<open>isspace\<close> of \<open><cctype>\<close> in the "C" locale (the program never calls \<open>setlocale\<close>): space,
  horizontal tab, line feed, vertical tab, form feed and carriage return.
\<close>

definition isspace :: "byte \<Rightarrow> bool" where
  "isspace c = (c = 0x20 \<or> c = 0x09 \<or> c = 0x0A \<or> c = 0x0B \<or> c = 0x0C \<or> c = 0x0D)"

definition is_digit :: "byte \<Rightarrow> bool" where
  "is_digit c = (0x30 \<le> c \<and> c \<le> 0x39)"

definition digit_val :: "byte \<Rightarrow> int" where
  "digit_val c = uint c - 48"

definition digits_value :: "byte list \<Rightarrow> int" where
  "digits_value ds = foldl (\<lambda>acc c. 10 * acc + digit_val c) 0 ds"

text \<open>
  \<open>std::from_chars\<close> (C++17, \<open><charconv>\<close>) for a signed integer type with the range
  \<open>lo .. hi\<close>, base 10: an optional minus sign (0x2D) and the longest run of digits; no
  leading whitespace and no plus sign. Without a digit the result is \<open>invalid_argument\<close>,
  with a value outside the range \<open>result_out_of_range\<close>; both are \<open>None\<close> here, since the
  caller only tests \<open>ec == std::errc()\<close>.
\<close>

definition from_chars_int :: "int \<Rightarrow> int \<Rightarrow> byte list \<Rightarrow> int option" where
  "from_chars_int lo hi s =
     (let neg = (s \<noteq> [] \<and> hd s = 0x2D);
          body = (if neg then tl s else s);
          ds = takeWhile is_digit body;
          v = (if neg then - digits_value ds else digits_value ds)
      in if ds = [] then None
         else if lo \<le> v \<and> v \<le> hi then Some v
         else None)"

text \<open>
  One \<open>%Nd\<close> conversion of \<open>sscanf\<close>: white space is skipped, then an optional sign and
  decimal digits are read, at most \<open>width\<close> characters in all. The conversion fails when
  the input ends or no digit follows. The result is the value and the unread input.
\<close>

definition scan_d :: "nat \<Rightarrow> byte list \<Rightarrow> (int \<times> byte list) option" where
  "scan_d width s =
     (let s1 = dropWhile isspace s;
          signed = (s1 \<noteq> [] \<and> (hd s1 = 0x2D \<or> hd s1 = 0x2B));
          body = (if signed then tl s1 else s1);
          w = (if signed then width - 1 else width);
          ds = takeWhile is_digit (take w body)
      in if ds = [] then None
         else Some ((if signed \<and> hd s1 = 0x2D then - digits_value ds else digits_value ds),
                    drop (length ds) body))"

text \<open>\<open>sscanf(s, "%4d%2d%2d", &year, &month, &day) == 3\<close>: \<open>Some\<close> when it holds.\<close>

definition sscanf_4d2d2d :: "byte list \<Rightarrow> (int \<times> int \<times> int) option" where
  "sscanf_4d2d2d s =
     (case scan_d 4 s of
        None \<Rightarrow> None
      | Some (year, r1) \<Rightarrow>
          (case scan_d 2 r1 of
             None \<Rightarrow> None
           | Some (month, r2) \<Rightarrow>
               (case scan_d 2 r2 of
                  None \<Rightarrow> None
                | Some (day, r3) \<Rightarrow> Some (year, month, day))))"

text \<open>
  Days from 1970-01-01 to the given day of the proleptic Gregorian calendar, for a month in
  \<open>1 .. 12\<close>; the day may lie outside the month and then counts on from its first day.
\<close>

definition days_from_civil :: "int \<Rightarrow> int \<Rightarrow> int \<Rightarrow> int" where
  "days_from_civil y m d =
     (let y1 = (if m \<le> 2 then y - 1 else y);
          era = y1 div 400;
          yoe = y1 - era * 400;
          mp = (m + 9) mod 12;
          doy = (153 * mp + 2) div 5 + d - 1;
          doe = yoe * 365 + yoe div 4 - yoe div 100 + doy
      in era * 146097 + doe - 719468)"

text \<open>
  \<open>mktime\<close> on a \<open>struct tm\<close> that is zero but for \<open>tm_year\<close>, \<open>tm_mon\<close> and \<open>tm_mday\<close>:
  the members are normalised (a month outside \<open>0 .. 11\<close> carries into the year, a day
  outside the month into the following or preceding months) and the time is read as local
  standard time, \<open>gmtoff\<close> seconds east of UTC. \<open>time_t\<close> has 64 bits.
\<close>

definition mktime :: "int \<Rightarrow> int \<Rightarrow> int \<Rightarrow> int \<Rightarrow> int" where
  "mktime gmtoff tm_year tm_mon tm_mday =
     (days_from_civil (tm_year + 1900 + tm_mon div 12) (tm_mon mod 12 + 1) 1 + (tm_mday - 1)) * 86400
       - gmtoff"

text \<open>Integer division of C++, which truncates towards zero.\<close>

definition c_div :: "int \<Rightarrow> int \<Rightarrow> int" where
  "c_div a b = sgn a * sgn b * (\<bar>a\<bar> div \<bar>b\<bar>)"

section \<open>Batch extraction (parquet\_write.cpp)\<close>

definition is_ascii :: "byte list \<Rightarrow> bool" where
  "is_ascii str = list_all (\<lambda>c. \<not> c > 127) str"

text \<open>
  The POSIX \<open>convert_to_utf8_opt\<close>; \<open>cd\<close> stands for the call of \<open>iconv\<close> on an open
  descriptor and is \<open>None\<close> where \<open>iconv\<close> reports an error.
\<close>

definition convert_to_utf8_opt :: "(byte list \<Rightarrow> byte list option) \<Rightarrow> byte list \<Rightarrow> byte list" where
  "convert_to_utf8_opt cd input =
     (if input = [] then []
      else case cd input of None \<Rightarrow> [] | Some out \<Rightarrow> out)"

text \<open>
  \<open>trim_in_place\<close>: \<open>start\<close> and \<open>end\<close> are indices into the buffer. The two loops are
\<^verbatim>\<open>
    while (start <= end && isspace(*start)) { start++; len--; }
    while (end > start && isspace(*end))    { end--;   len--; }
\<close>
  and the function then stores a terminator at \<open>end + 1\<close>.
\<close>

function skip_leading :: "byte list \<Rightarrow> nat \<Rightarrow> nat \<Rightarrow> nat \<Rightarrow> nat \<times> nat" where
  "skip_leading buf end start len =
     (if start \<le> end \<and> isspace (buf ! start)
      then skip_leading buf end (start + 1) (len - 1)
      else (start, len))"
  by pat_completeness auto
termination
  by (relation "measure (\<lambda>(buf, end, start, len). end + 1 - start)") auto

function skip_trailing :: "byte list \<Rightarrow> nat \<Rightarrow> nat \<Rightarrow> nat \<Rightarrow> nat \<times> nat" where
  "skip_trailing buf start end len =
     (if end > start \<and> isspace (buf ! end)
      then skip_trailing buf start (end - 1) (len - 1)
      else (end, len))"
  by pat_completeness auto
termination
  by (relation "measure (\<lambda>(buf, start, end, len). end)") auto

definition trim_in_place :: "byte list \<Rightarrow> nat \<Rightarrow> nat \<Rightarrow> byte list \<times> nat \<times> nat" where
  "trim_in_place buf start len =
     (if len = 0 then (buf, start, len)
      else let end = start + len - 1;
               (start1, len1) = skip_leading buf end start len;
               (end1, len2) = skip_trailing buf start1 end len1
           in (buf[end1 + 1 := 0], start1, len2))"


text \<open>
  Modelled from the spec: \<open>fast_float::from_chars\<close> of \<open>libs/fast_float/fast_float.h\<close> is
  missing. The spec says "parse as a floating-point literal; parse
  failure yields null"; the literal is taken to be that of the library's documentation,
  the general format of \<open>std::from_chars\<close>: an optional minus sign, digits with an optional
  decimal point (at least one digit), an optional exponent that is read only when a digit
  follows its sign, or one of \<open>nan\<close>, \<open>inf\<close>, \<open>infinity\<close> in any letter case; no leading
  white space and no plus sign. The result is the binary64 value nearest to the decimal
  that was read, which is kept here as the decimal itself: \<open>Decimal neg w q\<close> stands for
  the double nearest to \<open>w * 10 ^ q\<close>, negated when \<open>neg\<close> holds. A nonzero decimal that
  rounds to zero or to infinity is \<open>result_out_of_range\<close>. \<open>ff_exponent\<close> reads the
  exponent from what follows the mantissa, \<open>ff_parse_number\<close> the mantissa before it.
\<close>

datatype float_literal = Decimal bool int int | Infinity bool | NaN bool

definition ff_exponent :: "byte list \<Rightarrow> int" where
  "ff_exponent p2 =
     (let has_e = (p2 \<noteq> [] \<and> (hd p2 = 0x65 \<or> hd p2 = 0x45));
          p3 = (if has_e then tl p2 else []);
          esign = (p3 \<noteq> [] \<and> (hd p3 = 0x2D \<or> hd p3 = 0x2B));
          p4 = (if esign then tl p3 else p3);
          ed = takeWhile is_digit p4
      in if ed = [] then 0
         else if esign \<and> hd p3 = 0x2D then - digits_value ed
         else digits_value ed)"

definition ff_parse_number :: "byte list \<Rightarrow> float_literal option" where
  "ff_parse_number s =
     (let neg = (s \<noteq> [] \<and> hd s = 0x2D);
          p0 = (if neg then tl s else s);
          ip = takeWhile is_digit p0;
          p1 = drop (length ip) p0;
          has_dot = (p1 \<noteq> [] \<and> hd p1 = 0x2E);
          fp = (if has_dot then takeWhile is_digit (tl p1) else []);
          p2 = (if has_dot then drop (length fp) (tl p1) else p1)
      in if ip = [] \<and> fp = [] then None
         else Some (Decimal neg (digits_value (ip @ fp)) (ff_exponent p2 - int (length fp))))"

definition ff_parse_infnan :: "byte list \<Rightarrow> float_literal option" where
  "ff_parse_infnan s =
     (let neg = (s \<noteq> [] \<and> hd s = 0x2D);
          p0 = (if neg then tl s else s);
          w = map (\<lambda>c. c OR 0x20) (take 3 p0)
      in if w = [0x6E, 0x61, 0x6E] then Some (NaN neg)
         else if w = [0x69, 0x6E, 0x66] then Some (Infinity neg)
         else None)"

definition ff_out_of_range :: "int \<Rightarrow> int \<Rightarrow> bool" where
  "ff_out_of_range w q =
     (w \<noteq> 0 \<and>
      (if q \<ge> 0 then w * 10 ^ nat q \<ge> 2 ^ 1024 - 2 ^ 970
       else w \<ge> (2 ^ 1024 - 2 ^ 970) * 10 ^ nat (- q) \<or> w * 2 ^ 1075 \<le> 10 ^ nat (- q)))"

definition fast_float_from_chars :: "byte list \<Rightarrow> float_literal option" where
  "fast_float_from_chars s =
     (case ff_parse_number s of
        None \<Rightarrow> ff_parse_infnan s
      | Some (Decimal neg w q) \<Rightarrow> if ff_out_of_range w q then None else Some (Decimal neg w q)
      | Some v \<Rightarrow> Some v)"

text \<open>A cell of a column: what the builder receives, \<open>Null\<close> for \<open>AppendNull\<close>.\<close>

datatype cell = Null | Utf8 "byte list" | Int32 "32 word" | Int64 "64 word"
  | Float64 float_literal | Boolean bool | Date32 "32 word"

text \<open>The C string at an address: the bytes up to the first terminator.\<close>

definition c_string :: "byte list \<Rightarrow> nat \<Rightarrow> byte list" where
  "c_string buf p = takeWhile (\<lambda>c. c \<noteq> 0) (drop p buf)"

text \<open>
  The \<open>switch (field_type_id)\<close> of \<open>create_arrow_batch\<close> for a cell that is not empty:
  \<open>trimmed_data\<close> is an index into the buffer. \<open>cd\<close> is the open conversion descriptor and
  \<open>gmtoff\<close> the offset of local time.
\<close>

definition convert_cell ::
  "(byte list \<Rightarrow> byte list option) \<Rightarrow> int \<Rightarrow> arrow_type \<Rightarrow> byte list \<Rightarrow> nat \<Rightarrow> nat \<Rightarrow> cell" where
  "convert_cell cd gmtoff field_type_id buf trimmed_data current_len =
     (let data = slice trimmed_data current_len buf
      in case field_type_id of
           STRING \<Rightarrow>
             if is_ascii data then Utf8 data else Utf8 (convert_to_utf8_opt cd data)
         | INT32 \<Rightarrow>
             (case from_chars_int (- (2 ^ 31)) (2 ^ 31 - 1) data of
                Some v \<Rightarrow> Int32 (word_of_int v)
              | None \<Rightarrow> Null)
         | INT64 \<Rightarrow>
             (case from_chars_int (- (2 ^ 63)) (2 ^ 63 - 1) data of
                Some v \<Rightarrow> Int64 (word_of_int v)
              | None \<Rightarrow> Null)
         | DOUBLE \<Rightarrow>
             (case fast_float_from_chars data of
                Some v \<Rightarrow> Float64 v
              | None \<Rightarrow> Null)
         | BOOL \<Rightarrow>
             (let c = buf ! trimmed_data
              in Boolean (current_len = 1 \<and>
                          (c = 0x54 \<or> c = 0x74 \<or> c = 0x31 \<or> c = 0x59 \<or> c = 0x79)))
         | DATE32 \<Rightarrow>
             (case sscanf_4d2d2d (c_string buf trimmed_data) of
                Some (year, month, day) \<Rightarrow>
                  Date32 (word_of_int (c_div (mktime gmtoff (year - 1900) (month - 1) day) 86400))
              | None \<Rightarrow> Null))"

text \<open>
  The body of the inner loop for the field at address \<open>field_data\<close> (record pointer plus
  field offset) in the buffer \<open>buf\<close>; it returns the cell and the buffer it leaves. The
  byte after the field is saved, overwritten with a terminator and written back at the end.
\<close>

definition extract_cell ::
  "(byte list \<Rightarrow> byte list option) \<Rightarrow> int \<Rightarrow> arrow_type \<Rightarrow> byte list \<Rightarrow> int \<Rightarrow> nat
     \<Rightarrow> fault + (cell \<times> byte list)" where
  "extract_cell cd gmtoff field_type_id buf field_data field_len =
     (if field_data < 0 \<or> int (length buf) \<le> field_data + int field_len then Inl OutOfBounds
      else let fd = nat field_data;
               backup_char = buf ! (fd + field_len);
               buf1 = buf[fd + field_len := 0];
               (buf2, trimmed_data, current_len) = trim_in_place buf1 fd field_len;
               c = (if buf2 ! trimmed_data = 0 then Null
                    else convert_cell cd gmtoff field_type_id buf2 trimmed_data current_len)
           in Inr (c, buf2[fd + field_len := backup_char]))"

text \<open>The loop over the rows of one column, threading the buffer.\<close>

fun extract_rows ::
  "(byte list \<Rightarrow> byte list option) \<Rightarrow> int \<Rightarrow> arrow_type \<Rightarrow> nat \<Rightarrow> nat \<Rightarrow> int list \<Rightarrow> byte list
     \<Rightarrow> fault + (cell list \<times> byte list)" where
  "extract_rows cd gmtoff ty field_off field_len [] buf = Inr ([], buf)"
| "extract_rows cd gmtoff ty field_off field_len (rp # rps) buf =
     (case extract_cell cd gmtoff ty buf (rp + int field_off) field_len of
        Inl e \<Rightarrow> Inl e
      | Inr (c, buf1) \<Rightarrow>
          (case extract_rows cd gmtoff ty field_off field_len rps buf1 of
             Inl e \<Rightarrow> Inl e
           | Inr (cs, buf2) \<Rightarrow> Inr (c # cs, buf2)))"

text \<open>The loop over the columns of the schema, \<open>col\<close> counting up from 0.\<close>

fun extract_columns ::
  "(byte list \<Rightarrow> byte list option) \<Rightarrow> int \<Rightarrow> DB_FIELD list \<Rightarrow> int list \<Rightarrow> nat \<Rightarrow> arrow_type list
     \<Rightarrow> byte list \<Rightarrow> fault + (cell list list \<times> byte list)" where
  "extract_columns cd gmtoff flds rps col [] buf = Inr ([], buf)"
| "extract_columns cd gmtoff flds rps col (ty # tys) buf =
     (if col \<ge> length flds then Inl OutOfBounds
      else case extract_rows cd gmtoff ty (unat (field_offset (flds ! col)))
                  (unat (field_length (flds ! col))) rps buf of
        Inl e \<Rightarrow> Inl e
      | Inr (cs, buf1) \<Rightarrow>
          (case extract_columns cd gmtoff flds rps (col + 1) tys buf1 of
             Inl e \<Rightarrow> Inl e
           | Inr (css, buf2) \<Rightarrow> Inr (cs # css, buf2)))"

text \<open>
  What the platform supplies: \<open>iconv_open "UTF-8" encoding\<close>, \<open>None\<close> when it fails and
  else the conversion of a byte range, and the offset of local time from UTC in seconds,
  one offset for all dates (no change of the offset within the table's dates).
\<close>

record platform =
  iconv_open :: "string \<Rightarrow> (byte list \<Rightarrow> byte list option) option"
  tm_gmtoff :: int

text \<open>
  \<open>start_row\<close> and \<open>num_rows\<close> are \<open>int\<close>; their sum is compared with the unsigned record
  count, so all three are 32-bit words here. The address of a record is an index into the
  buffer, an unbounded integer: the product \<open>(start_row + i) * record_length\<close> is an
  \<open>int\<close> in the code and is the same number as long as it is below \<open>2 ^ 31\<close>; a table
  beyond that size is not represented.
\<close>

definition actual_rows :: "DB_HEADER \<Rightarrow> 32 word \<Rightarrow> 32 word \<Rightarrow> 32 word" where
  "actual_rows h start_row num_rows =
     (if start_row + num_rows > records h then records h - start_row else num_rows)"

definition record_pointer :: "DB_HEADER \<Rightarrow> 32 word \<Rightarrow> nat \<Rightarrow> int" where
  "record_pointer h start_row i =
     uint (header_length h) + (sint start_row + int i) * uint (record_length h)"

text \<open>
  \<open>create_arrow_batch\<close> returns the row count and the columns; the table it was given is
  returned too, since its buffer is written to. The Arrow builders are taken to succeed,
  and the record pointers are computed without overflow.
\<close>

definition create_arrow_batch ::
  "platform \<Rightarrow> DBF \<Rightarrow> (byte list \<times> arrow_type) list \<Rightarrow> 32 word \<Rightarrow> 32 word
     \<Rightarrow> fault + ((nat \<times> cell list list) \<times> DBF)" where
  "create_arrow_batch plat dbf schema start_row num_rows =
     (case header dbf of
        None \<Rightarrow> Inl NullPointer
      | Some h \<Rightarrow>
          let n = unat (actual_rows h start_row num_rows);
              record_pointers = map (record_pointer h start_row) [0 ..< n]
          in (case iconv_open plat (encoding dbf) of
                None \<Rightarrow> Inl Failure
              | Some cd \<Rightarrow>
                  (case extract_columns cd (tm_gmtoff plat) (dbf_fields dbf) record_pointers 0
                          (map snd schema) (mem_buffer dbf) of
                     Inl e \<Rightarrow> Inl e
                   | Inr (cols, buf) \<Rightarrow> Inr ((n, cols), (dbf\<lparr>mem_buffer := buf\<rparr>)))))"

section \<open>Field values as strings (dbf\_reader.cpp)\<close>

text \<open>The characters of \<open>" \t\n\r"\<close>.\<close>

definition blank :: "byte \<Rightarrow> bool" where
  "blank c = (c = 0x20 \<or> c = 0x09 \<or> c = 0x0A \<or> c = 0x0D)"

text \<open>\<open>find_first_not_of\<close> and \<open>find_last_not_of\<close>; \<open>None\<close> is \<open>npos\<close>.\<close>

definition find_first_not_of :: "byte list \<Rightarrow> nat option" where
  "find_first_not_of v = (if list_all blank v then None else Some (length (takeWhile blank v)))"

definition find_last_not_of :: "byte list \<Rightarrow> nat option" where
  "find_last_not_of v =
     (if list_all blank v then None else Some (length v - length (takeWhile blank (rev v)) - 1))"

definition dbf_get_field_value :: "DBF \<Rightarrow> nat \<Rightarrow> int \<Rightarrow> fault + byte list" where
  "dbf_get_field_value dbf col row =
     (case header dbf of
        None \<Rightarrow> Inl NullPointer
      | Some h \<Rightarrow>
          if col \<ge> length (dbf_fields dbf) then Inl OutOfBounds
          else let record_offset = uint (header_length h) + row * uint (record_length h);
                   field_ptr = record_offset + uint (field_offset (dbf_fields dbf ! col));
                   field_len = unat (field_length (dbf_fields dbf ! col))
               in if field_ptr < 0 \<or> int (length (mem_buffer dbf)) < field_ptr + int field_len
                  then Inl OutOfBounds
                  else let v = slice (nat field_ptr) field_len (mem_buffer dbf);
                           v1 = (case find_first_not_of v of None \<Rightarrow> [] | Some k \<Rightarrow> drop k v);
                           v2 = (case find_last_not_of v1 of None \<Rightarrow> [] | Some k \<Rightarrow> take (k + 1) v1)
                       in Inr v2)"

section \<open>Loading a file (dbf\_reader.cpp)\<close>

text \<open>
  The input file is the list of its bytes. A seek within or beyond it succeeds, and a read
  delivers the bytes that are there. \<open>dbf_ReadHeaderSize\<close> returns 1 when the two bytes at
  offset 8 cannot be read.
\<close>

definition dbf_ReadHeaderSize :: "byte list \<Rightarrow> 16 word" where
  "dbf_ReadHeaderSize input =
     (if length input < 10 then 1
      else ucast (input ! 8) + push_bit 8 (ucast (input ! 9)))"

text \<open>
  \<open>blast\<close> of \<open>blast.c\<close> is a parameter: a function from the compressed bytes to the
  bytes it hands to \<open>out_to_memory\<close>, \<open>None\<close> where it returns an error. The bytes are
  appended to the buffer.
\<close>

definition dbf_DecompressData ::
  "(byte list \<Rightarrow> byte list option) \<Rightarrow> byte list \<Rightarrow> 16 word \<Rightarrow> byte list \<Rightarrow> fault + byte list" where
  "dbf_DecompressData blast input header_size output_buf =
     (case blast (drop (unat header_size + 4) input) of
        None \<Rightarrow> Inl Failure
      | Some out \<Rightarrow> Inr (output_buf @ out))"

definition dbc_load_dbf :: "(byte list \<Rightarrow> byte list option) \<Rightarrow> byte list \<Rightarrow> DBF \<Rightarrow> fault + DBF" where
  "dbc_load_dbf blast input dbf =
     (let header_size = dbf_ReadHeaderSize input
      in if header_size = 1 then Inl Failure
         else if length input < unat header_size then Inl Failure
         else case dbf_DecompressData blast input header_size (take (unat header_size) input) of
                Inl e \<Rightarrow> Inl e
              | Inr buf \<Rightarrow>
                  (case dbf_ReadHeaderInfo (dbf\<lparr>mem_buffer := buf\<rparr>) of
                     Inl e \<Rightarrow> Inl e
                   | Inr dbf1 \<Rightarrow> dbf_ReadFieldInfo dbf1))"


section \<open>Trimming, as a function on lists\<close>

text \<open>
  What trimming means for a byte range, stated on lists: the longest prefix and the longest
  suffix of bytes satisfying \<open>P\<close> are removed.
\<close>

definition trim_both :: "('a \<Rightarrow> bool) \<Rightarrow> 'a list \<Rightarrow> 'a list" where
  "trim_both P xs = rev (dropWhile P (rev (dropWhile P xs)))"

text \<open>
  How a buffer can differ from the one the table was loaded with once cells have been
  extracted: the two have the same length, and a byte that differs was white space and
  is now 0.
\<close>

definition faded :: "byte list \<Rightarrow> byte list \<Rightarrow> bool" where
  "faded orig cur =
     (length cur = length orig \<and>
      (\<forall>i<length orig. cur ! i = orig ! i \<or> (isspace (orig ! i) \<and> cur ! i = 0)))"

section \<open>Sample tables\<close>

text \<open>Concrete inputs on which the theorems below are instantiated.\<close>

definition ascii :: "string \<Rightarrow> byte list" where
  "ascii s = map of_char s"

definition new_DBF :: DBF where
  "new_DBF = \<lparr> mem_buffer = [], header = None, dbf_fields = [], columns = 0, encoding = [] \<rparr>"

text \<open>A header with the given record count, header length, record length and language.\<close>

definition sample_header :: "byte \<Rightarrow> byte \<Rightarrow> byte \<Rightarrow> byte \<Rightarrow> byte list" where
  "sample_header nrecords hlen rlen lang =
     [3, 125, 1, 1, nrecords, 0, 0, 0, hlen, 0, rlen, 0] @ replicate 17 0 @ [lang, 0, 0]"

definition sample_descriptor :: "string \<Rightarrow> byte \<Rightarrow> byte \<Rightarrow> byte \<Rightarrow> byte list" where
  "sample_descriptor name ty len dec =
     ascii name @ replicate (11 - length name) 0 @ [ty, 0, 0, 0, 0, len, dec] @ replicate 14 0"

text \<open>Two character fields of 5 and 10 bytes and three records.\<close>

definition text_table :: "byte list" where
  "text_table =
     sample_header 3 97 16 0x65
     @ sample_descriptor ''NAME'' 0x43 5 0
     @ sample_descriptor ''CITY'' 0x43 10 0
     @ [0x0D]
     @ ascii '' AB   RECIFE    ''
     @ ascii '' CD   NATAL     ''
     @ ascii ''      OLINDA    ''
     @ [0x1A]"

definition numeric_table :: "byte list" where
  "numeric_table =
     sample_header 0 97 20 0x02
     @ sample_descriptor ''QTY'' 0x4E 9 0
     @ sample_descriptor ''BIG'' 0x4E 10 0
     @ [0x0D, 0x1A]"

text \<open>A table whose header has been read from the start of the buffer.\<close>

definition with_header :: "byte list \<Rightarrow> DBF" where
  "with_header buf = new_DBF\<lparr>mem_buffer := buf, header := Some (copy_header (take 32 buf))\<rparr>"

definition numeric_dbf :: DBF where
  "numeric_dbf = (with_header numeric_table)
     \<lparr>dbf_fields := [copy_field (sample_descriptor ''QTY'' 0x4E 9 0),
                     copy_field (sample_descriptor ''BIG'' 0x4E 10 0)]\<rparr>"

text \<open>The text table with its catalog, as \<open>dbc_load_dbf\<close> leaves it, and its schema.\<close>

definition text_dbf :: DBF where
  "text_dbf = (with_header text_table)
     \<lparr>dbf_fields := assign_offsets 1 (copy_fields 2 (drop 32 text_table)), columns := 2\<rparr>"

definition text_schema :: "(byte list \<times> arrow_type) list" where
  "text_schema = [(ascii ''NAME'', STRING), (ascii ''CITY'', STRING)]"

text \<open>
  A conversion that returns its input, and a platform on which every encoding has that
  conversion and local time is UTC.
\<close>

definition plain_cd :: "byte list \<Rightarrow> byte list option" where
  "plain_cd bs = Some bs"

definition utc_platform :: platform where
  "utc_platform = \<lparr> iconv_open = (\<lambda>enc. Some plain_cd), tm_gmtoff = 0 \<rparr>"

text \<open>The text table after one pass over its three rows.\<close>

definition text_dbf_after :: DBF where
  "text_dbf_after =
     text_dbf\<lparr>mem_buffer := (mem_buffer text_dbf)[100 := 0, 116 := 0, 109 := 0, 124 := 0, 141 := 0]\<rparr>"

text \<open>
  A file that declares a header of 6 bytes. Its compressed part, from offset 10, is the
  literal-coded stream of the 34 bytes of \<open>short_payload\<close>, so that the buffer has 40 bytes
  and bytes 8 and 9 of the buffer, the header length, come from the payload and hold 65.
  \<open>short_blast\<close> decompresses that one stream.
\<close>

definition short_payload :: "byte list" where
  "short_payload = [0, 0, 65, 0] @ replicate 30 0"

definition short_stream :: "byte list" where
  "short_stream = [0, 4, 0, 0, 8, 2] @ replicate 34 0 @ [4, 252, 3]"

definition short_file :: "byte list" where
  "short_file = [3, 125, 1, 1, 0, 0, 0, 0, 6, 0] @ short_stream"

definition short_blast :: "byte list \<Rightarrow> byte list option" where
  "short_blast c = (if c = short_stream then Some short_payload else None)"

lemmas sample_defs = ascii_def new_DBF_def sample_header_def sample_descriptor_def
  text_table_def numeric_table_def with_header_def

section \<open>The trimming loops\<close>

lemma slice_Cons: "i < length xs \<Longrightarrow> slice i (Suc m) xs = xs ! i # slice (Suc i) m xs"
  by (simp add: slice_def Cons_nth_drop_Suc [symmetric])

lemma slice_snoc: "i + m < length xs \<Longrightarrow> slice i (Suc m) xs = slice i m xs @ [xs ! (i + m)]"
  by (simp add: slice_def take_Suc_conv_app_nth)

lemma slice_0 [simp]: "slice i 0 xs = []"
  by (simp add: slice_def)

lemma length_slice: "i + m \<le> length xs \<Longrightarrow> length (slice i m xs) = m"
  by (simp add: slice_def)

lemma nth_slice: "k < m \<Longrightarrow> i + m \<le> length xs \<Longrightarrow> slice i m xs ! k = xs ! (i + k)"
  by (simp add: slice_def)

lemma skip_leading_eq:
  "start \<le> end + 1 \<Longrightarrow> end < length buf \<Longrightarrow>
   skip_leading buf end start len =
     (start + length (takeWhile isspace (slice start (end + 1 - start) buf)),
      len - length (takeWhile isspace (slice start (end + 1 - start) buf)))"
proof (induction buf "end" start len rule: skip_leading.induct)
  case (1 buf e start len)
  show ?case
  proof (cases "start \<le> e \<and> isspace (buf ! start)")
    case True
    then have sl: "slice start (e + 1 - start) buf = buf ! start # slice (start + 1) (e + 1 - (start + 1)) buf"
      using "1.prems" slice_Cons [of start buf "e - start"] by (simp add: Suc_diff_le)
    have "skip_leading buf e start len = skip_leading buf e (start + 1) (len - 1)"
      using True by simp
    also have "\<dots> = (start + 1 + length (takeWhile isspace (slice (start + 1) (e + 1 - (start + 1)) buf)),
                    len - 1 - length (takeWhile isspace (slice (start + 1) (e + 1 - (start + 1)) buf)))"
      using "1.IH" [OF True] True "1.prems" by simp
    finally show ?thesis using True sl by simp
  next
    case False
    show ?thesis
    proof (cases "start \<le> e")
      case True
      then have ns: "\<not> isspace (buf ! start)" using False by simp
      have sl: "slice start (e + 1 - start) buf = buf ! start # slice (start + 1) (e - start) buf"
        using True "1.prems" slice_Cons [of start buf "e - start"] by (simp add: Suc_diff_le)
      show ?thesis using False ns sl by (simp del: skip_leading.simps add: skip_leading.simps [of buf e start len])
    next
      case False
      then have "e + 1 - start = 0" by simp
      then show ?thesis using False by (simp del: skip_leading.simps add: skip_leading.simps [of buf e start len])
    qed
  qed
qed

lemma skip_trailing_eq:
  "end < length buf \<Longrightarrow>
   skip_trailing buf start end len =
     (end - length (takeWhile isspace (rev (slice (start + 1) (end - start) buf))),
      len - length (takeWhile isspace (rev (slice (start + 1) (end - start) buf))))"
proof (induction buf start "end" len rule: skip_trailing.induct)
  case (1 buf start e len)
  show ?case
  proof (cases "e > start \<and> isspace (buf ! e)")
    case True
    then obtain m where m: "e = Suc (start + m)" using less_imp_Suc_add by blast
    have sl: "slice (start + 1) (e - start) buf = slice (start + 1) (e - 1 - start) buf @ [buf ! e]"
      using "1.prems" slice_snoc [of "start + 1" m buf] unfolding m by simp
    have "skip_trailing buf start e len = skip_trailing buf start (e - 1) (len - 1)"
      using True by simp
    also have "\<dots> = (e - 1 - length (takeWhile isspace (rev (slice (start + 1) (e - 1 - start) buf))),
                    len - 1 - length (takeWhile isspace (rev (slice (start + 1) (e - 1 - start) buf))))"
      using "1.IH" [OF True] "1.prems" by simp
    finally show ?thesis using True sl by simp
  next
    case False
    show ?thesis
    proof (cases "e > start")
      case True
      then obtain m where m: "e = Suc (start + m)" using less_imp_Suc_add by blast
      have ns: "\<not> isspace (buf ! e)" using False True by simp
      have sl: "slice (start + 1) (e - start) buf = slice (start + 1) (e - 1 - start) buf @ [buf ! e]"
        using "1.prems" slice_snoc [of "start + 1" m buf] unfolding m by simp
      show ?thesis using False ns sl
        by (simp del: skip_trailing.simps add: skip_trailing.simps [of buf start e len])
    next
      case False
      then have "e - start = 0" by simp
      then show ?thesis using False
        by (simp del: skip_trailing.simps add: skip_trailing.simps [of buf start e len])
    qed
  qed
qed


lemma takeWhile_snoc_not: "\<not> P x \<Longrightarrow> takeWhile P (xs @ [x]) = takeWhile P xs"
  by (induction xs) auto

lemma rev_dropWhile_rev: "rev (dropWhile P (rev ys)) = take (length ys - length (takeWhile P (rev ys))) ys"
proof -
  have "dropWhile P (rev ys) = drop (length (takeWhile P (rev ys))) (rev ys)"
    by (rule dropWhile_eq_drop)
  then show ?thesis by (simp add: rev_drop)
qed

lemma trim_both_as_take:
  "trim_both P xs =
     take (length (dropWhile P xs) - length (takeWhile P (rev (dropWhile P xs)))) (dropWhile P xs)"
  by (simp add: trim_both_def rev_dropWhile_rev)

lemma length_trim_both:
  "length (trim_both P xs) = length (dropWhile P xs) - length (takeWhile P (rev (dropWhile P xs)))"
  by (subst trim_both_as_take) simp

lemma trim_both_take:
  "trim_both P xs = take (length (trim_both P xs)) (drop (length (takeWhile P xs)) xs)"
proof -
  have "trim_both P xs = take (length (trim_both P xs)) (dropWhile P xs)"
    by (subst trim_both_as_take) (simp add: length_trim_both)
  then show ?thesis by (simp add: dropWhile_eq_drop)
qed

lemma length_takeWhile_dropWhile: "length (takeWhile P xs) + length (dropWhile P xs) = length xs"
proof -
  have "length (takeWhile P xs @ dropWhile P xs) = length xs" by simp
  then show ?thesis by (simp only: length_append)
qed

lemma trim_both_length_le: "length (takeWhile P xs) + length (trim_both P xs) \<le> length xs"
  using length_takeWhile_dropWhile [of P xs] by (simp add: length_trim_both)

lemma trim_both_hd:
  assumes "trim_both P xs \<noteq> []"
  shows "\<not> P (hd (trim_both P xs)) \<and> hd (trim_both P xs) \<in> set xs"
proof -
  obtain g gs where g: "dropWhile P xs = g # gs"
    using assms by (cases "dropWhile P xs") (simp_all add: trim_both_as_take)
  have "length (trim_both P xs) > 0" using assms by simp
  then have n: "length (dropWhile P xs) - length (takeWhile P (rev (dropWhile P xs))) > 0"
    by (simp only: length_trim_both)
  then obtain n' where n': "length (dropWhile P xs) - length (takeWhile P (rev (dropWhile P xs))) = Suc n'"
    by (metis Suc_pred)
  have "trim_both P xs = take (Suc n') (dropWhile P xs)"
    by (subst trim_both_as_take) (simp only: n')
  then have h: "hd (trim_both P xs) = g" by (simp add: g)
  have "\<not> P g" using hd_dropWhile [of P xs] g by simp
  moreover have "g \<in> set xs" using set_dropWhileD [of g P xs] g by simp
  ultimately show ?thesis using h by simp
qed

lemma trim_in_place_eq:
  assumes "start + len \<le> length buf"
  shows "trim_in_place buf start len =
           ((if len = 0 then buf
             else buf[start + length (takeWhile isspace (slice start len buf))
                      + length (trim_both isspace (slice start len buf)) := 0]),
            start + length (takeWhile isspace (slice start len buf)),
            length (trim_both isspace (slice start len buf)))"
proof (cases "len = 0")
  case True
  then show ?thesis by (simp add: trim_in_place_def trim_both_def)
next
  case False
  define F where "F = slice start len buf"
  define k1 where "k1 = length (takeWhile isspace F)"
  define e where "e = start + len - 1"
  have goal: "?thesis =
     (trim_in_place buf start len =
        (buf[start + k1 + length (trim_both isspace F) := 0], start + k1,
         length (trim_both isspace F)))"
    using False by (simp add: F_def k1_def)
  have tip: "trim_in_place buf start len =
     (case skip_leading buf e start len of
        (start1, len1) \<Rightarrow>
          (case skip_trailing buf start1 e len1 of
             (end1, len2) \<Rightarrow> (buf[end1 + 1 := 0], start1, len2)))"
    using False by (simp add: trim_in_place_def e_def Let_def)
  have lenF: "length F = len" using assms by (simp add: F_def length_slice)
  have e: "e < length buf" "start \<le> e + 1" "e + 1 - start = len" "e + 1 = start + len"
    using False assms by (simp_all add: e_def)
  have lead: "skip_leading buf e start len = (start + k1, len - k1)"
    using skip_leading_eq [OF e(2) e(1), of len] e(3) by (simp add: k1_def F_def)
  have k1le: "k1 \<le> len" using lenF length_takeWhile_le [of isspace F] by (simp add: k1_def)
  show ?thesis
  proof (cases "k1 = len")
    case True
    then have "dropWhile isspace F = []"
      using lenF k1_def length_takeWhile_dropWhile [of isspace F] by simp
    then have "trim_both isspace F = rev (dropWhile isspace (rev []))"
      unfolding trim_both_def by (simp only:)
    then have T: "trim_both isspace F = []" by simp
    have trail: "skip_trailing buf (start + k1) e (len - k1) = (e, 0)"
      using skip_trailing_eq [OF e(1), of "start + k1" "len - k1"] True e by simp
    have "trim_in_place buf start len = (buf[e + 1 := 0], start + k1, 0)"
      by (simp only: tip lead trail prod.case)
    then show ?thesis
      unfolding goal using T True e(4) by simp
  next
    case ne: False
    then have k1lt: "k1 < len" using k1le by simp
    define tl where "tl = slice (start + k1 + 1) (e - (start + k1)) buf"
    define k2 where "k2 = length (takeWhile isspace (rev tl))"
    obtain m where m: "len - k1 = Suc m" using k1lt by (cases "len - k1") auto
    have em: "e - (start + k1) = m" using m e by simp
    have G: "dropWhile isspace F = buf ! (start + k1) # tl"
    proof -
      have "dropWhile isspace F = drop k1 F" by (simp add: k1_def dropWhile_eq_drop)
      also have "\<dots> = slice (start + k1) (len - k1) buf"
        by (simp add: F_def slice_def drop_take add.commute)
      also have "\<dots> = buf ! (start + k1) # slice (Suc (start + k1)) m buf"
        using m k1lt assms slice_Cons [of "start + k1" buf m] by simp
      finally show ?thesis using em by (simp add: tl_def)
    qed
    have ns: "\<not> isspace (buf ! (start + k1))"
      using hd_dropWhile [of isspace F] G by simp
    have lentl: "length tl = m"
      using em e assms k1lt by (simp add: tl_def length_slice)
    have k2: "k2 = length (takeWhile isspace (rev (dropWhile isspace F)))"
      using ns by (simp add: G k2_def takeWhile_snoc_not)
    have lenT: "length (trim_both isspace F) = Suc m - k2"
      using k2 by (simp add: length_trim_both G lentl)
    have k2le: "k2 \<le> m"
      using lentl length_takeWhile_le [of isspace "rev tl"] by (simp add: k2_def)
    have trail: "skip_trailing buf (start + k1) e (len - k1) = (e - k2, len - k1 - k2)"
      using skip_trailing_eq [OF e(1), of "start + k1" "len - k1"] by (simp add: k2_def tl_def)
    have pos: "e - k2 + 1 = start + k1 + length (trim_both isspace F)"
      using lenT k2le em m e by simp
    have l2: "len - k1 - k2 = length (trim_both isspace F)"
      using lenT m by simp
    have "trim_in_place buf start len = (buf[e - k2 + 1 := 0], start + k1, len - k1 - k2)"
      by (simp only: tip lead trail prod.case)
    then show ?thesis
      unfolding goal by (simp only: pos l2)
  qed
qed

section \<open>One cell\<close>

lemma convert_cell_cong:
  "slice t m B = slice t' m B' \<Longrightarrow> B ! t = B' ! t' \<Longrightarrow> c_string B t = c_string B' t' \<Longrightarrow>
   convert_cell cd g ty B t m = convert_cell cd g ty B' t' m"
  by (cases ty) (simp_all add: convert_cell_def Let_def)

lemma slice_list_update_outside:
  "j < i \<or> i + m \<le> j \<Longrightarrow> slice i m (xs[j := v]) = slice i m xs"
  by (auto simp: slice_def drop_update_swap take_update_cancel)

lemma drop_as_slice:
  "i + m < length xs \<Longrightarrow> drop i xs = slice i m xs @ xs ! (i + m) # drop (Suc (i + m)) xs"
proof -
  assume a: "i + m < length xs"
  have "drop i xs = take m (drop i xs) @ drop m (drop i xs)" by (simp only: append_take_drop_id)
  also have "drop m (drop i xs) = drop (i + m) xs" by (simp add: add.commute)
  also have "drop (i + m) xs = xs ! (i + m) # drop (Suc (i + m)) xs"
    using a by (simp add: Cons_nth_drop_Suc)
  finally show ?thesis by (simp add: slice_def)
qed

lemma takeWhile_append_stop: "\<not> P x \<Longrightarrow> takeWhile P (xs @ x # ys) = takeWhile P xs"
  by (induction xs) auto

lemma extract_cell_eq:
  assumes fd: "0 \<le> fd" and inb: "fd + int n < int (length buf)"
  shows "extract_cell cd g ty buf fd n =
     Inr (if trim_both isspace (slice (nat fd) n buf) = []
             \<or> hd (trim_both isspace (slice (nat fd) n buf)) = 0 then Null
          else convert_cell cd g ty (trim_both isspace (slice (nat fd) n buf) @ [0]) 0
                 (length (trim_both isspace (slice (nat fd) n buf))),
          if length (takeWhile isspace (slice (nat fd) n buf))
               + length (trim_both isspace (slice (nat fd) n buf)) < n
          then buf[nat fd + length (takeWhile isspace (slice (nat fd) n buf))
                     + length (trim_both isspace (slice (nat fd) n buf)) := 0]
          else buf)"
proof -
  define p where "p = nat fd"
  define F where "F = slice p n buf"
  define k1 where "k1 = length (takeWhile isspace F)"
  define T where "T = trim_both isspace F"
  define m where "m = length T"
  define buf1 where "buf1 = buf[p + n := 0]"
  define buf2 where "buf2 = (if n = 0 then buf1 else buf1[p + k1 + m := 0])"
  have pn: "p + n < length buf" using fd inb by (simp add: p_def)
  have lenF: "length F = n" using pn by (simp add: F_def length_slice)
  have km: "k1 + m \<le> n" using trim_both_length_le [of isspace F] lenF by (simp add: k1_def m_def T_def)
  have F1: "slice p n buf1 = F"
    by (simp add: buf1_def F_def slice_list_update_outside)
  have "p + n \<le> length buf1" using pn by (simp add: buf1_def)
  then have "trim_in_place buf1 p n =
           ((if n = 0 then buf1
             else buf1[p + length (takeWhile isspace (slice p n buf1))
                      + length (trim_both isspace (slice p n buf1)) := 0]),
            p + length (takeWhile isspace (slice p n buf1)),
            length (trim_both isspace (slice p n buf1)))"
    by (rule trim_in_place_eq)
  then have trim: "trim_in_place buf1 p n = (buf2, p + k1, m)"
    by (simp only: F1 k1_def [symmetric] T_def [symmetric] m_def [symmetric] buf2_def)
  have len2: "length buf2 = length buf" by (simp add: buf2_def buf1_def)
  have nul: "buf2 ! (p + k1 + m) = 0"
  proof (cases "n = 0")
    case True
    then show ?thesis using km pn by (simp add: buf2_def buf1_def)
  next
    case False
    then show ?thesis using km pn by (simp add: buf2_def buf1_def)
  qed
  have T_eq: "slice (p + k1) m buf = T"
  proof -
    have "T = take m (drop k1 F)" using trim_both_take [of isspace F] by (simp add: T_def m_def k1_def)
    also have "\<dots> = slice (p + k1) m buf"
      using km by (simp add: F_def slice_def drop_take add.commute min_def)
    finally show ?thesis by simp
  qed
  have T2: "slice (p + k1) m buf2 = T"
    using km by (simp add: buf2_def buf1_def slice_list_update_outside T_eq)
  have dr: "drop (p + k1) buf2 = T @ 0 # drop (Suc (p + k1 + m)) buf2"
    using drop_as_slice [of "p + k1" m buf2] km pn len2 T2 nul by (simp add: add.assoc)
  have cs: "c_string buf2 (p + k1) = takeWhile (\<lambda>c. c \<noteq> 0) T"
    by (simp add: c_string_def dr takeWhile_append_stop)
  have first: "buf2 ! (p + k1) = (T @ [0]) ! 0"
  proof (cases "T = []")
    case True
    then show ?thesis using nul by (simp add: m_def)
  next
    case False
    then have "0 < m" by (simp add: m_def)
    then have "slice (p + k1) m buf2 ! 0 = buf2 ! (p + k1)"
      using nth_slice [of 0 m "p + k1" buf2] km pn len2 by simp
    then show ?thesis using False T2 by (cases T) simp_all
  qed
  have conv: "convert_cell cd g ty buf2 (p + k1) m = convert_cell cd g ty (T @ [0]) 0 m"
  proof (rule convert_cell_cong)
    have "slice 0 m (T @ [0]) = T" by (simp add: slice_def m_def)
    then show "slice (p + k1) m buf2 = slice 0 m (T @ [0])" by (simp add: T2)
    show "buf2 ! (p + k1) = (T @ [0]) ! 0" by (rule first)
    have "c_string (T @ [0]) 0 = takeWhile (\<lambda>c. c \<noteq> 0) T"
      by (simp add: c_string_def takeWhile_append_stop)
    then show "c_string buf2 (p + k1) = c_string (T @ [0]) 0"
      by (simp only: cs)
  qed
  have null: "(buf2 ! (p + k1) = 0) = (T = [] \<or> hd T = 0)"
    using first by (cases T) simp_all
  have restore: "buf2[p + n := buf ! (p + n)] = (if k1 + m < n then buf[p + k1 + m := 0] else buf)"
  proof (cases "k1 + m < n")
    case True
    have "(buf[p + n := 0])[p + k1 + m := 0] = (buf[p + k1 + m := 0])[p + n := 0]"
      using True by (intro list_update_swap) simp
    then have b2: "buf2 = (buf[p + k1 + m := 0])[p + n := 0]"
      using True by (simp add: buf2_def buf1_def)
    have nth: "(buf[p + k1 + m := 0]) ! (p + n) = buf ! (p + n)" using True by simp
    have "buf2[p + n := buf ! (p + n)]
            = (buf[p + k1 + m := 0])[p + n := (buf[p + k1 + m := 0]) ! (p + n)]"
      by (simp add: b2 nth)
    also have "\<dots> = buf[p + k1 + m := 0]" by (rule list_update_id)
    finally show ?thesis using True by simp
  next
    case False
    then have "k1 + m = n" using km by simp
    then have "buf2 = buf[p + n := 0]" by (auto simp: buf2_def buf1_def add.assoc)
    then show ?thesis using False by simp
  qed
  have "extract_cell cd g ty buf fd n =
          Inr (if buf2 ! (p + k1) = 0 then Null else convert_cell cd g ty buf2 (p + k1) m,
               buf2[p + n := buf ! (p + n)])"
    using fd inb trim
    by (simp add: extract_cell_def Let_def p_def [symmetric] buf1_def [symmetric])
  then show ?thesis
    by (simp only: null conv restore) (simp add: m_def T_def k1_def F_def p_def)
qed

lemma isspace_iff: "isspace c \<longleftrightarrow> c \<in> {0x20, 0x09, 0x0A, 0x0B, 0x0C, 0x0D}"
  by (auto simp: isspace_def)

text \<open>
  Claim C4, as the code has it. The bytes that the type conversion of a cell receives are
  the bytes of the field with the white space of \<open>isspace\<close> removed from both ends, and
  that is six byte values: space, tab, line feed, vertical tab, form feed and carriage
  return. The cell is null when nothing is left or when what is left starts with a 0 byte.
\<close>

theorem cell_trims_isspace:
  assumes "0 \<le> fd" and "fd + int n < int (length buf)"
  shows "(\<exists>buf'. extract_cell cd g ty buf fd n =
            Inr (if trim_both isspace (slice (nat fd) n buf) = []
                    \<or> hd (trim_both isspace (slice (nat fd) n buf)) = 0 then Null
                 else convert_cell cd g ty (trim_both isspace (slice (nat fd) n buf) @ [0]) 0
                        (length (trim_both isspace (slice (nat fd) n buf))),
                 buf'))
         \<and> (\<forall>c. isspace c \<longleftrightarrow> c \<in> {0x20, 0x09, 0x0A, 0x0B, 0x0C, 0x0D})"
  using extract_cell_eq [OF assms, of cd g ty] isspace_iff by simp

theorem cell_trims_isspace_witness:
  "\<exists>buf'. extract_cell plain_cd 0 STRING (ascii ''  AB   ;'') 0 7 = Inr (Utf8 (ascii ''AB''), buf')"
proof -
  have t: "trim_both isspace (slice (nat 0) 7 (ascii ''  AB   ;'')) = ascii ''AB''"
    by code_simp
  have c: "convert_cell plain_cd 0 STRING (ascii ''AB'' @ [0]) 0 (length (ascii ''AB'')) = Utf8 (ascii ''AB'')"
    by code_simp
  have n: "ascii ''AB'' \<noteq> [] \<and> hd (ascii ''AB'') \<noteq> 0" by code_simp
  have "(0::int) \<le> 0" "0 + int 7 < int (length (ascii ''  AB   ;''))" by (simp_all add: ascii_def)
  from cell_trims_isspace [OF this, of plain_cd 0 STRING]
  show ?thesis using n by (simp only: t c) simp
qed

text \<open>
  A field holding a vertical tab, the letter A and a form feed becomes the text A: both
  control characters are trimmed, though neither is among space, tab, line feed and
  carriage return.
\<close>

theorem vertical_tab_trimmed_counterexample:
  "extract_cell plain_cd 0 STRING [0x0B, 0x41, 0x0C, 0x1A] 0 3 = Inr (Utf8 [0x41], [0x0B, 0x41, 0, 0x1A])
   \<and> trim_both blank [0x0B, 0x41, 0x0C] = [0x0B, 0x41, 0x0C]"
  by code_simp

text \<open>\<open>dbf_get_field_value\<close>, which the batch does not use, trims the four characters only.\<close>

lemma dbf_get_field_value_trims_blank:
  assumes "header dbf = Some h" and "col < length (dbf_fields dbf)"
    and "0 \<le> uint (header_length h) + row * uint (record_length h)
              + uint (field_offset (dbf_fields dbf ! col))"
    and "uint (header_length h) + row * uint (record_length h)
              + uint (field_offset (dbf_fields dbf ! col))
              + uint (field_length (dbf_fields dbf ! col)) \<le> int (length (mem_buffer dbf))"
  shows "dbf_get_field_value dbf col row =
           Inr (trim_both blank
                  (slice (nat (uint (header_length h) + row * uint (record_length h)
                               + uint (field_offset (dbf_fields dbf ! col))))
                         (unat (field_length (dbf_fields dbf ! col))) (mem_buffer dbf)))"
proof -
  have a: "(case find_first_not_of v of None \<Rightarrow> [] | Some k \<Rightarrow> drop k v) = dropWhile blank v" for v
  proof (cases "list_all blank v")
    case True
    then have "dropWhile blank v = []" by (simp add: list_all_iff)
    then show ?thesis using True by (simp only: find_first_not_of_def if_True option.case)
  next
    case False
    then show ?thesis by (simp add: find_first_not_of_def dropWhile_eq_drop)
  qed
  have b: "(case find_last_not_of v of None \<Rightarrow> [] | Some k \<Rightarrow> take (k + 1) v)
             = rev (dropWhile blank (rev v))" for v
  proof (cases "list_all blank v")
    case True
    then show ?thesis by (auto simp: find_last_not_of_def list_all_iff)
  next
    case False
    then have "dropWhile blank (rev v) \<noteq> []" by (simp add: list_all_iff)
    then have "length (takeWhile blank (rev v)) < length v"
      using length_takeWhile_dropWhile [of blank "rev v"] by (cases "dropWhile blank (rev v)") simp_all
    then have "Suc (length v - Suc (length (takeWhile blank (rev v))))
                 = length v - length (takeWhile blank (rev v))" by simp
    then show ?thesis using False
      by (simp add: find_last_not_of_def rev_dropWhile_rev)
  qed
  show ?thesis using assms
    by (simp add: dbf_get_field_value_def Let_def a b trim_both_def not_less)
qed

section \<open>Numbers\<close>








lemma from_chars_int_no_digit:
  assumes "sign = [] \<or> sign = [0x2D]"
    and "rest = [] \<or> \<not> is_digit (hd rest)"
    and "sign = [] \<longrightarrow> rest = [] \<or> hd rest \<noteq> 0x2D"
  shows "from_chars_int lo hi (sign @ rest) = None"
proof -
  have tw: "takeWhile is_digit rest = []" using assms(2) by (cases rest) auto
  from assms(1) show ?thesis
  proof
    assume "sign = []"
    then show ?thesis using assms(3) tw by (cases rest) (simp_all add: from_chars_int_def Let_def)
  next
    assume "sign = [0x2D]"
    then show ?thesis using tw by (simp add: from_chars_int_def Let_def)
  qed
qed









text \<open>Without a digit after the optional minus sign an integer cell is null; so is a
  double cell when no digit follows a point either and the value is not one of \<open>nan\<close>,
  \<open>inf\<close>, \<open>infinity\<close>.\<close>

lemma no_digit_is_null:
  assumes "0 \<le> fd" and "fd + int n < int (length buf)"
    and "trim_both isspace (slice (nat fd) n buf) = sign @ rest"
    and "sign = [] \<or> sign = [0x2D]"
    and "rest = [] \<or> \<not> is_digit (hd rest)"
    and "sign = [] \<longrightarrow> rest = [] \<or> hd rest \<noteq> 0x2D"
  shows "(\<exists>buf'. extract_cell cd g INT32 buf fd n = Inr (Null, buf'))
       \<and> (\<exists>buf'. extract_cell cd g INT64 buf fd n = Inr (Null, buf'))
       \<and> ((rest = [] \<or> hd rest \<noteq> 0x2E \<or> tl rest = [] \<or> \<not> is_digit (hd (tl rest)))
            \<and> ff_parse_infnan (sign @ rest) = None
          \<longrightarrow> (\<exists>buf'. extract_cell cd g DOUBLE buf fd n = Inr (Null, buf')))"
proof -
  define T where "T = trim_both isspace (slice (nat fd) n buf)"
  have T: "T = sign @ rest" using assms(3) by (simp add: T_def)
  have tw: "takeWhile is_digit rest = []" using assms(5) by (cases rest) auto
  have fc: "from_chars_int lo hi T = None" for lo hi
    unfolding T using assms(4,5,6) by (rule from_chars_int_no_digit)
  have data: "slice 0 (length T) (T @ [0]) = T" by (simp add: slice_def)
  define B where "B =
     (if length (takeWhile isspace (slice (nat fd) n buf))
           + length (trim_both isspace (slice (nat fd) n buf)) < n
      then buf[nat fd + length (takeWhile isspace (slice (nat fd) n buf))
                 + length (trim_both isspace (slice (nat fd) n buf)) := 0]
      else buf)"
  have e: "extract_cell cd g ty buf fd n =
            Inr (if T = [] \<or> hd T = 0 then Null
                 else convert_cell cd g ty (T @ [0]) 0 (length T), B)" for ty
    unfolding T_def B_def by (rule extract_cell_eq [OF assms(1,2)])
  have i: "convert_cell cd g INT32 (T @ [0]) 0 (length T) = Null"
    "convert_cell cd g INT64 (T @ [0]) 0 (length T) = Null"
    by (simp_all add: convert_cell_def data fc)
  have d: "convert_cell cd g DOUBLE (T @ [0]) 0 (length T) = Null"
    if nf: "rest = [] \<or> hd rest \<noteq> 0x2E \<or> tl rest = [] \<or> \<not> is_digit (hd (tl rest))"
      and nn: "ff_parse_infnan (sign @ rest) = None"
  proof -
    have p0: "(if sign @ rest \<noteq> [] \<and> hd (sign @ rest) = 0x2D then tl (sign @ rest)
               else sign @ rest) = rest"
      using assms(4,6) by (cases rest) auto
    have twf: "(if rest \<noteq> [] \<and> hd rest = 0x2E then takeWhile is_digit (tl rest) else []) = []"
      using nf by (cases "tl rest") auto
    have "ff_parse_number (sign @ rest) = None"
      by (simp only: ff_parse_number_def [of "sign @ rest"] Let_def p0 tw list.size drop_0 twf)
         simp
    then have "fast_float_from_chars T = None" by (simp add: fast_float_from_chars_def T nn)
    then show ?thesis by (simp add: convert_cell_def data)
  qed
  show ?thesis using e i d by auto
qed

section \<open>Dates\<close>

lemma is_digit_not_special:
  "is_digit c \<Longrightarrow> \<not> isspace c \<and> c \<noteq> 0x2D \<and> c \<noteq> 0x2B \<and> c \<noteq> 0 \<and> c \<noteq> 0x2E \<and> c \<noteq> 0x65 \<and> c \<noteq> 0x45"
  by (auto simp: is_digit_def isspace_def)

lemma takeWhile_all: "list_all P xs \<Longrightarrow> takeWhile P xs = xs"
  by (simp add: list_all_iff)

lemma list_all_take: "list_all P xs \<Longrightarrow> list_all P (take n xs)"
  by (auto simp: list_all_iff dest: in_set_takeD)

lemma list_all_drop: "list_all P xs \<Longrightarrow> list_all P (drop n xs)"
  by (auto simp: list_all_iff dest: in_set_dropD)

lemma scan_d_digits:
  assumes "list_all is_digit xs" and "0 < w" and "w \<le> length xs"
  shows "scan_d w xs = Some (digits_value (take w xs), drop w xs)"
proof -
  obtain x xs' where x: "xs = x # xs'" using assms(2,3) by (cases xs) auto
  have d: "\<not> isspace x" "x \<noteq> 0x2D" "x \<noteq> 0x2B"
    using assms(1) x is_digit_not_special [of x] by simp_all
  have tw: "takeWhile is_digit (take w (x # xs')) = take w (x # xs')"
    using assms(1) x by (intro takeWhile_all list_all_take) simp
  have ne: "take w (x # xs') \<noteq> []" using assms(2) by (cases w) auto
  have len: "length (take w (x # xs')) = w" using assms(3) x by simp
  have "scan_d w (x # xs') = Some (digits_value (take w (x # xs')), drop w (x # xs'))"
    unfolding scan_d_def Let_def using d assms(2,3) x
    by (simp add: tw ne len del: take_Suc_Cons take_Cons')
  then show ?thesis by (simp only: x)
qed

lemma sscanf_eight_digits:
  assumes "list_all is_digit T" and "length T = 8"
  shows "sscanf_4d2d2d T = Some (digits_value (take 4 T), digits_value (take 2 (drop 4 T)),
                                digits_value (drop 6 T))"
proof -
  have a: "scan_d 4 T = Some (digits_value (take 4 T), drop 4 T)"
    using scan_d_digits [of T 4] assms by simp
  have b: "scan_d 2 (drop 4 T) = Some (digits_value (take 2 (drop 4 T)), drop 2 (drop 4 T))"
    using scan_d_digits [of "drop 4 T" 2] list_all_drop [OF assms(1), of 4] assms(2) by simp
  have c: "scan_d 2 (drop 6 T) = Some (digits_value (take 2 (drop 6 T)), drop 2 (drop 6 T))"
    using scan_d_digits [of "drop 6 T" 2] list_all_drop [OF assms(1), of 6] assms(2) by simp
  have d: "take 2 (drop 6 T) = drop 6 T" using assms(2) by simp
  show ?thesis using a b c d by (simp add: sscanf_4d2d2d_def)
qed

lemma digits_no_terminator: "list_all is_digit T \<Longrightarrow> takeWhile (\<lambda>c. c \<noteq> 0) T = T"
  using is_digit_not_special by (auto simp: list_all_iff takeWhile_eq_all_conv)

lemma days_from_civil_day: "days_from_civil y m 1 + (d - 1) = days_from_civil y m d"
  by (simp add: days_from_civil_def Let_def)

lemma c_div_days:
  assumes "0 \<le> d" and "- 86400 < g" and "g \<le> 0"
  shows "c_div (d * 86400 - g) 86400 = d"
proof -
  define a where "a = d * 86400 - g"
  have nn: "0 \<le> a" using assms by (simp add: a_def)
  have "a = - g + d * 86400" by (simp add: a_def)
  then have "a div 86400 = (- g + d * 86400) div 86400" by (rule arg_cong)
  also have "\<dots> = d + (- g) div 86400" by (rule div_mult_self1) simp
  also have "(- g) div 86400 = 0" using assms by simp
  finally have q: "a div 86400 = d" by simp
  have "c_div a 86400 = d"
  proof (cases "a = 0")
    case True
    then have "d = 0" using q by simp
    then show ?thesis using True by (simp add: c_div_def)
  next
    case False
    then have "0 < a" using nn by simp
    then show ?thesis using q by (simp add: c_div_def)
  qed
  then show ?thesis by (simp only: a_def)
qed

lemma mktime_valid_month:
  assumes "1 \<le> m" and "m \<le> 12"
  shows "mktime g (y - 1900) (m - 1) d = days_from_civil y m d * 86400 - g"
proof -
  have "(m - 1) div 12 = 0" "(m - 1) mod 12 = m - 1" using assms by simp_all
  then show ?thesis by (simp add: mktime_def days_from_civil_day)
qed

text \<open>
  Claim C1, as the code has it. A Date cell is read by \<open>sscanf\<close> with \<open>%4d%2d%2d\<close> from
  the trimmed value, and it is null exactly when the value is empty, starts with a 0 byte,
  or does not yield three integers. Otherwise it is the number of whole days in what
  \<open>mktime\<close> returns for the three integers, and \<open>mktime\<close> does not reject a day or month
  out of range. So a trimmed value of eight digits is never null: its first four digits
  are the year, the next two the month and the last two the day, and when the month is
  within 1 to 12, the date is not before 1970 and local time is at or west of UTC (by less
  than a day), the cell is the day count of the first of that month plus the day minus one.
\<close>

theorem date_cell:
  assumes "0 \<le> fd" and "fd + int n < int (length buf)"
  shows "(\<exists>buf'. extract_cell cd g DATE32 buf fd n =
            Inr (if trim_both isspace (slice (nat fd) n buf) = []
                    \<or> hd (trim_both isspace (slice (nat fd) n buf)) = 0 then Null
                 else case sscanf_4d2d2d (takeWhile (\<lambda>c. c \<noteq> 0)
                                            (trim_both isspace (slice (nat fd) n buf))) of
                        None \<Rightarrow> Null
                      | Some (year, month, day) \<Rightarrow>
                          Date32 (word_of_int (c_div (mktime g (year - 1900) (month - 1) day) 86400)),
                 buf'))
       \<and> (length (trim_both isspace (slice (nat fd) n buf)) = 8
            \<and> list_all is_digit (trim_both isspace (slice (nat fd) n buf)) \<longrightarrow>
          (\<exists>year month day buf'.
             year = digits_value (take 4 (trim_both isspace (slice (nat fd) n buf)))
             \<and> month = digits_value (take 2 (drop 4 (trim_both isspace (slice (nat fd) n buf))))
             \<and> day = digits_value (drop 6 (trim_both isspace (slice (nat fd) n buf)))
             \<and> extract_cell cd g DATE32 buf fd n =
                 Inr (Date32 (word_of_int (c_div (mktime g (year - 1900) (month - 1) day) 86400)),
                      buf')
             \<and> (1 \<le> month \<and> month \<le> 12 \<and> 0 \<le> days_from_civil year month day
                  \<and> - 86400 < g \<and> g \<le> 0 \<longrightarrow>
                extract_cell cd g DATE32 buf fd n =
                  Inr (Date32 (word_of_int (days_from_civil year month day)), buf'))))"
proof -
  define T where "T = trim_both isspace (slice (nat fd) n buf)"
  have cs: "c_string (T @ [0]) 0 = takeWhile (\<lambda>c. c \<noteq> 0) T"
    by (simp add: c_string_def takeWhile_append_stop)
  obtain buf' where e: "extract_cell cd g DATE32 buf fd n =
            Inr (if T = [] \<or> hd T = 0 then Null
                 else case sscanf_4d2d2d (takeWhile (\<lambda>c. c \<noteq> 0) T) of
                        None \<Rightarrow> Null
                      | Some (year, month, day) \<Rightarrow>
                          Date32 (word_of_int (c_div (mktime g (year - 1900) (month - 1) day) 86400)),
                 buf')"
    using extract_cell_eq [OF assms, of cd g DATE32]
    by (simp add: T_def [symmetric] convert_cell_def cs)
  have second: "\<exists>year month day buf'.
             year = digits_value (take 4 T)
             \<and> month = digits_value (take 2 (drop 4 T))
             \<and> day = digits_value (drop 6 T)
             \<and> extract_cell cd g DATE32 buf fd n =
                 Inr (Date32 (word_of_int (c_div (mktime g (year - 1900) (month - 1) day) 86400)),
                      buf')
             \<and> (1 \<le> month \<and> month \<le> 12 \<and> 0 \<le> days_from_civil year month day
                  \<and> - 86400 < g \<and> g \<le> 0 \<longrightarrow>
                extract_cell cd g DATE32 buf fd n =
                  Inr (Date32 (word_of_int (days_from_civil year month day)), buf'))"
    if len: "length T = 8" and dig: "list_all is_digit T"
  proof -
    define year where "year = digits_value (take 4 T)"
    define month where "month = digits_value (take 2 (drop 4 T))"
    define day where "day = digits_value (drop 6 T)"
    have s: "sscanf_4d2d2d (takeWhile (\<lambda>c. c \<noteq> 0) T) = Some (year, month, day)"
      by (simp only: digits_no_terminator [OF dig] sscanf_eight_digits [OF dig len]
          year_def month_def day_def)
    obtain t ts where t: "T = t # ts" using len by (cases T) auto
    have "is_digit t" using dig t by simp
    then have nz: "T \<noteq> [] \<and> hd T \<noteq> 0" using is_digit_not_special [of t] t by simp
    have c: "extract_cell cd g DATE32 buf fd n =
                 Inr (Date32 (word_of_int (c_div (mktime g (year - 1900) (month - 1) day) 86400)),
                      buf')"
      using e nz s by simp
    have "extract_cell cd g DATE32 buf fd n =
                  Inr (Date32 (word_of_int (days_from_civil year month day)), buf')"
      if "1 \<le> month" "month \<le> 12" "0 \<le> days_from_civil year month day" "- 86400 < g" "g \<le> 0"
      using c that by (simp add: mktime_valid_month c_div_days)
    then have "year = digits_value (take 4 T)
             \<and> month = digits_value (take 2 (drop 4 T))
             \<and> day = digits_value (drop 6 T)
             \<and> extract_cell cd g DATE32 buf fd n =
                 Inr (Date32 (word_of_int (c_div (mktime g (year - 1900) (month - 1) day) 86400)),
                      buf')
             \<and> (1 \<le> month \<and> month \<le> 12 \<and> 0 \<le> days_from_civil year month day
                  \<and> - 86400 < g \<and> g \<le> 0 \<longrightarrow>
                extract_cell cd g DATE32 buf fd n =
                  Inr (Date32 (word_of_int (days_from_civil year month day)), buf'))"
      using c by (simp add: year_def month_def day_def)
    then show ?thesis by (intro exI)
  qed
  show ?thesis
    unfolding T_def [symmetric]
  proof (intro conjI impI)
    show "\<exists>buf'. extract_cell cd g DATE32 buf fd n =
            Inr (if T = [] \<or> hd T = 0 then Null
                 else case sscanf_4d2d2d (takeWhile (\<lambda>c. c \<noteq> 0) T) of
                        None \<Rightarrow> Null
                      | Some (year, month, day) \<Rightarrow>
                          Date32 (word_of_int (c_div (mktime g (year - 1900) (month - 1) day) 86400)),
                 buf')"
      using e by (rule exI)
  next
    assume "length T = 8 \<and> list_all is_digit T"
    then show "\<exists>year month day buf'.
             year = digits_value (take 4 T)
             \<and> month = digits_value (take 2 (drop 4 T))
             \<and> day = digits_value (drop 6 T)
             \<and> extract_cell cd g DATE32 buf fd n =
                 Inr (Date32 (word_of_int (c_div (mktime g (year - 1900) (month - 1) day) 86400)),
                      buf')
             \<and> (1 \<le> month \<and> month \<le> 12 \<and> 0 \<le> days_from_civil year month day
                  \<and> - 86400 < g \<and> g \<le> 0 \<longrightarrow>
                extract_cell cd g DATE32 buf fd n =
                  Inr (Date32 (word_of_int (days_from_civil year month day)), buf'))"
      using second by simp
  qed
qed

theorem date_cell_witness:
  "\<exists>buf'. extract_cell plain_cd 0 DATE32 (ascii ''20240229'' @ [0x1A]) 0 8
            = Inr (Date32 19782, buf')"
proof -
  define buf where "buf = ascii ''20240229'' @ [0x1A]"
  define T where "T = trim_both isspace (slice (nat 0) 8 buf)"
  have b: "(0::int) \<le> 0" "0 + int 8 < int (length buf)" by (simp_all add: buf_def ascii_def)
  have T: "length T = 8 \<and> list_all is_digit T"
    unfolding T_def buf_def by code_simp
  have s: "digits_value (take 4 T) = 2024" "digits_value (take 2 (drop 4 T)) = 2"
    "digits_value (drop 6 T) = 29"
    unfolding T_def buf_def by code_simp+
  have d: "days_from_civil 2024 2 29 = 19782" by code_simp
  from date_cell [OF b, of plain_cd 0] T
  obtain year month day buf' where
    p: "year = digits_value (take 4 T)" "month = digits_value (take 2 (drop 4 T))"
       "day = digits_value (drop 6 T)"
    and q: "1 \<le> month \<and> month \<le> 12 \<and> 0 \<le> days_from_civil year month day
              \<and> - 86400 < (0::int) \<and> (0::int) \<le> 0 \<longrightarrow>
            extract_cell plain_cd 0 DATE32 buf 0 8 =
              Inr (Date32 (word_of_int (days_from_civil year month day)), buf')"
    unfolding T_def by blast
  have ymd: "year = 2024" "month = 2" "day = 29" using p s by simp_all
  have "extract_cell plain_cd 0 DATE32 buf 0 8 = Inr (Date32 19782, buf')"
    using q d by (simp add: ymd)
  then show ?thesis unfolding buf_def by (rule exI)
qed

text \<open>
  The value 20230229 gives the date 19417, which is 2023-03-01, where the claim has null.
\<close>

theorem invalid_date_not_null_counterexample:
  "extract_cell plain_cd 0 DATE32 (ascii ''20230229'' @ [0x1A]) 0 8
     = Inr (Date32 19417, ascii ''20230229'' @ [0x1A])
   \<and> days_from_civil 2023 3 1 = 19417"
  by code_simp

section \<open>A batch\<close>

lemma faded_refl: "faded orig orig"
  by (simp add: faded_def)

lemma not_isspace_0 [simp]: "\<not> isspace 0"
  by (simp add: isspace_def)

lemma trim_both_next:
  assumes "length (takeWhile P xs) + length (trim_both P xs) < length xs"
  shows "P (xs ! (length (takeWhile P xs) + length (trim_both P xs)))"
proof -
  define G where "G = dropWhile P xs"
  define k2 where "k2 = length (takeWhile P (rev G))"
  define m where "m = length (trim_both P xs)"
  have G: "G = drop (length (takeWhile P xs)) xs" by (simp add: G_def dropWhile_eq_drop)
  have lenG: "length (takeWhile P xs) + length G = length xs"
    using length_takeWhile_dropWhile [of P xs] by (simp add: G_def)
  have m: "m = length G - k2" by (simp add: m_def length_trim_both G_def k2_def)
  have mlt: "m < length G" using assms lenG by (simp add: m_def)
  then have k2pos: "0 < k2" using m by simp
  have k2le: "k2 \<le> length G" using length_takeWhile_le [of P "rev G"] by (simp add: k2_def)
  have idx: "length G - Suc (k2 - 1) = m" using m k2pos by simp
  have "takeWhile P (rev G) ! (k2 - 1) = rev G ! (k2 - 1)"
    using k2pos by (intro takeWhile_nth) (simp add: k2_def)
  also have "\<dots> = G ! m"
    using k2pos k2le idx by (simp add: rev_nth)
  finally have e: "takeWhile P (rev G) ! (k2 - 1) = G ! m" .
  have "takeWhile P (rev G) ! (k2 - 1) \<in> set (takeWhile P (rev G))"
    using k2pos by (intro nth_mem) (simp add: k2_def)
  then have "P (G ! m)" using e set_takeWhileD by metis
  moreover have "G ! m = xs ! (length (takeWhile P xs) + m)"
    using mlt lenG by (simp add: G)
  ultimately show ?thesis by (simp add: m_def)
qed

lemma extract_cell_Inr_bounds:
  "extract_cell cd g ty buf fd n = Inr r \<Longrightarrow> 0 \<le> fd \<and> fd + int n < int (length buf)"
  by (auto simp: extract_cell_def split: if_splits)

text \<open>What one cell does to the buffer: nothing, or one blank byte of the field becomes 0.\<close>

lemma extract_cell_effect:
  assumes "extract_cell cd g ty buf fd n = Inr (c, buf')"
  shows "buf' = buf \<or> (\<exists>j. nat fd \<le> j \<and> j < nat fd + n \<and> isspace (buf ! j) \<and> buf' = buf[j := 0])"
proof -
  have b: "0 \<le> fd" "fd + int n < int (length buf)"
    using extract_cell_Inr_bounds [OF assms] by simp_all
  define F where "F = slice (nat fd) n buf"
  define k where "k = length (takeWhile isspace F) + length (trim_both isspace F)"
  have lenF: "length F = n" using b by (simp add: F_def length_slice)
  have buf': "buf' = (if k < n then buf[nat fd + k := 0] else buf)"
    using assms extract_cell_eq [OF b, of cd g ty]
    by (auto simp: F_def k_def add.assoc split: if_splits)
  show ?thesis
  proof (cases "k < n")
    case True
    have "isspace (F ! k)" using trim_both_next [of isspace F] True lenF by (simp add: k_def)
    moreover have "F ! k = buf ! (nat fd + k)" using True b by (simp add: F_def nth_slice)
    ultimately have "nat fd \<le> nat fd + k \<and> nat fd + k < nat fd + n
        \<and> isspace (buf ! (nat fd + k)) \<and> buf' = buf[nat fd + k := 0]"
      using True buf' by simp
    then show ?thesis by blast
  next
    case False
    then show ?thesis using buf' by simp
  qed
qed

lemma faded_step:
  assumes "faded orig cur" and "isspace (cur ! j)"
  shows "faded orig (cur[j := 0])"
proof -
  have len: "length cur = length orig" using assms(1) by (simp add: faded_def)
  have old: "cur ! i = orig ! i \<or> (isspace (orig ! i) \<and> cur ! i = 0)" if "i < length orig" for i
    using assms(1) that by (simp add: faded_def)
  have "cur[j := 0] ! i = orig ! i \<or> (isspace (orig ! i) \<and> cur[j := 0] ! i = 0)"
    if i: "i < length orig" for i
  proof (cases "i = j")
    case True
    have "cur ! j \<noteq> 0" using assms(2) by auto
    then have "cur ! j = orig ! j" using old [of j] i True by auto
    then show ?thesis using True assms(2) i len by simp
  next
    case False
    then show ?thesis using old [OF i] by simp
  qed
  then show ?thesis using len by (simp add: faded_def)
qed

lemma extract_cell_faded:
  assumes "extract_cell cd g ty buf fd n = Inr (c, buf')" and "faded orig buf"
  shows "faded orig buf'"
  using extract_cell_effect [OF assms(1)] assms(2) faded_step by auto

lemma blank_cell_is_null:
  assumes b: "0 \<le> fd" "fd + int n < int (length buf)"
    and blank: "\<forall>k<n. isspace (buf ! (nat fd + k)) \<or> buf ! (nat fd + k) = 0"
  shows "\<exists>buf'. extract_cell cd g ty buf fd n = Inr (Null, buf')"
proof -
  define F where "F = slice (nat fd) n buf"
  have lenF: "length F = n" using b by (simp add: F_def length_slice)
  have "hd (trim_both isspace F) = 0" if ne: "trim_both isspace F \<noteq> []"
  proof -
    from trim_both_hd [OF ne] have h: "\<not> isspace (hd (trim_both isspace F))"
      "hd (trim_both isspace F) \<in> set F" by simp_all
    then obtain k where k: "k < n" "F ! k = hd (trim_both isspace F)"
      using lenF by (auto simp: in_set_conv_nth)
    have "F ! k = buf ! (nat fd + k)" using k(1) b by (simp add: F_def nth_slice)
    then show ?thesis using blank k h by auto
  qed
  then show ?thesis using extract_cell_eq [OF b, of cd g ty] by (auto simp: F_def)
qed

lemma extract_rows_cells:
  "extract_rows cd g ty off len rps buf = Inr (cs, buf') \<Longrightarrow> faded orig buf \<Longrightarrow>
   faded orig buf' \<and> length cs = length rps \<and>
   (\<forall>i<length rps. \<exists>b b'. faded orig b \<and>
        extract_cell cd g ty b (rps ! i + int off) len = Inr (cs ! i, b'))"
proof (induction rps arbitrary: buf cs)
  case Nil
  then show ?case by simp
next
  case (Cons rp rps)
  from Cons.prems(1) obtain c buf1 cs1 where
    c: "extract_cell cd g ty buf (rp + int off) len = Inr (c, buf1)"
    and r: "extract_rows cd g ty off len rps buf1 = Inr (cs1, buf')"
    and cs: "cs = c # cs1"
    by (auto split: sum.splits prod.splits)
  have f1: "faded orig buf1" using extract_cell_faded [OF c Cons.prems(2)] .
  from Cons.IH [OF r f1] have ih: "faded orig buf'" "length cs1 = length rps"
    "\<forall>i<length rps. \<exists>b b'. faded orig b \<and>
        extract_cell cd g ty b (rps ! i + int off) len = Inr (cs1 ! i, b')"
    by simp_all
  have "\<exists>b b'. faded orig b \<and> extract_cell cd g ty b ((rp # rps) ! i + int off) len = Inr (cs ! i, b')"
    if "i < length (rp # rps)" for i
  proof (cases i)
    case 0
    then show ?thesis using c cs Cons.prems(2) by auto
  next
    case (Suc j)
    then show ?thesis using ih(3) that cs by auto
  qed
  then show ?case using ih cs by simp
qed

lemma extract_columns_cells:
  "extract_columns cd g flds rps col tys buf = Inr (css, buf') \<Longrightarrow> faded orig buf \<Longrightarrow>
   faded orig buf' \<and> length css = length tys \<and>
   (\<forall>c<length tys. length (css ! c) = length rps \<and>
      (\<forall>i<length rps. \<exists>b b'. faded orig b \<and>
        extract_cell cd g (tys ! c) b
           (rps ! i + int (unat (field_offset (flds ! (col + c)))))
           (unat (field_length (flds ! (col + c)))) = Inr (css ! c ! i, b')))"
proof (induction tys arbitrary: col buf css)
  case Nil
  then show ?case by simp
next
  case (Cons ty tys)
  from Cons.prems(1) obtain cs buf1 css1 where
    r: "extract_rows cd g ty (unat (field_offset (flds ! col))) (unat (field_length (flds ! col)))
          rps buf = Inr (cs, buf1)"
    and k: "extract_columns cd g flds rps (col + 1) tys buf1 = Inr (css1, buf')"
    and css: "css = cs # css1"
    by (auto split: sum.splits prod.splits if_splits)
  from extract_rows_cells [OF r Cons.prems(2)] have rr: "faded orig buf1" "length cs = length rps"
    "\<forall>i<length rps. \<exists>b b'. faded orig b \<and>
        extract_cell cd g ty b (rps ! i + int (unat (field_offset (flds ! col))))
          (unat (field_length (flds ! col))) = Inr (cs ! i, b')"
    by simp_all
  from Cons.IH [OF k rr(1)] have ih: "faded orig buf'" "length css1 = length tys"
    "\<forall>c<length tys. length (css1 ! c) = length rps \<and>
      (\<forall>i<length rps. \<exists>b b'. faded orig b \<and>
        extract_cell cd g (tys ! c) b
           (rps ! i + int (unat (field_offset (flds ! (col + 1 + c)))))
           (unat (field_length (flds ! (col + 1 + c)))) = Inr (css1 ! c ! i, b'))"
    by simp_all
  have "length (css ! c) = length rps \<and>
      (\<forall>i<length rps. \<exists>b b'. faded orig b \<and>
        extract_cell cd g ((ty # tys) ! c) b
           (rps ! i + int (unat (field_offset (flds ! (col + c)))))
           (unat (field_length (flds ! (col + c)))) = Inr (css ! c ! i, b'))"
    if "c < length (ty # tys)" for c
  proof (cases c)
    case 0
    then show ?thesis using rr css by simp
  next
    case (Suc d)
    then show ?thesis using ih(3) that css by simp
  qed
  then show ?case using ih css by simp
qed

text \<open>The batch of the three rows of the text table, and the table it leaves.\<close>

lemma text_batch:
  "create_arrow_batch utc_platform text_dbf text_schema 0 3 =
     Inr ((3, [[Utf8 (ascii ''AB''), Utf8 (ascii ''CD''), Null],
               [Utf8 (ascii ''RECIFE''), Utf8 (ascii ''NATAL''), Utf8 (ascii ''OLINDA'')]]),
          text_dbf_after)"
  by code_simp

lemma text_dbf_header:
  "header text_dbf = Some (copy_header (take 32 text_table))"
  by (simp add: text_dbf_def with_header_def new_DBF_def)

text \<open>
  Claim C7. In every batch, the cell of a field whose bytes in the loaded table are all
  white space is null, whatever the schema type of its column. The bytes are those of the
  table as it was loaded: terminators that earlier cells of the batch have left in the
  buffer do not change the result. White space is what \<open>isspace\<close> accepts, which
  includes space, tab, line feed and carriage return.
\<close>

theorem blank_field_yields_null:
  assumes batch: "create_arrow_batch plat dbf schema start_row num_rows = Inr ((n, cols), dbf')"
    and h: "header dbf = Some h"
    and col: "col < length schema" and i: "i < n"
    and blank: "\<forall>k < unat (field_length (dbf_fields dbf ! col)).
                  isspace (mem_buffer dbf !
                    (nat (record_pointer h start_row i + uint (field_offset (dbf_fields dbf ! col))) + k))"
  shows "cols ! col ! i = Null"
proof -
  define rps where "rps = map (record_pointer h start_row) [0 ..< n]"
  from batch h obtain cd buf' where
    n: "n = unat (actual_rows h start_row num_rows)"
    and ex: "extract_columns cd (tm_gmtoff plat) (dbf_fields dbf) rps 0 (map snd schema)
               (mem_buffer dbf) = Inr (cols, buf')"
    by (auto simp: create_arrow_batch_def Let_def rps_def split: option.splits sum.splits prod.splits)
  have lr: "length rps = n" by (simp add: rps_def)
  from extract_columns_cells [OF ex faded_refl] col i lr
  obtain b b' where fb: "faded (mem_buffer dbf) b"
    and ce: "extract_cell cd (tm_gmtoff plat) (map snd schema ! col) b
               (rps ! i + int (unat (field_offset (dbf_fields dbf ! col))))
               (unat (field_length (dbf_fields dbf ! col))) = Inr (cols ! col ! i, b')"
    by fastforce
  define fd where "fd = record_pointer h start_row i + uint (field_offset (dbf_fields dbf ! col))"
  define len where "len = unat (field_length (dbf_fields dbf ! col))"
  have fd: "rps ! i + int (unat (field_offset (dbf_fields dbf ! col))) = fd"
    using i by (simp add: rps_def fd_def)
  have ce': "extract_cell cd (tm_gmtoff plat) (map snd schema ! col) b fd len = Inr (cols ! col ! i, b')"
    using ce by (simp only: fd len_def)
  have bnd: "0 \<le> fd" "fd + int len < int (length b)"
    using extract_cell_Inr_bounds [OF ce'] by simp_all
  have lb: "length b = length (mem_buffer dbf)" using fb by (simp add: faded_def)
  have "isspace (b ! (nat fd + k)) \<or> b ! (nat fd + k) = 0" if "k < len" for k
  proof -
    have "nat fd + k < length (mem_buffer dbf)" using bnd lb that by simp
    moreover have "isspace (mem_buffer dbf ! (nat fd + k))"
      using blank that by (simp add: fd_def len_def)
    ultimately show ?thesis using fb by (auto simp: faded_def)
  qed
  then obtain b'' where "extract_cell cd (tm_gmtoff plat) (map snd schema ! col) b fd len = Inr (Null, b'')"
    using blank_cell_is_null [OF bnd, of cd "tm_gmtoff plat" "map snd schema ! col"] by blast
  then show ?thesis using ce' by simp
qed

theorem blank_field_yields_null_witness:
  "\<exists>n cols d'. create_arrow_batch utc_platform text_dbf text_schema 0 3 = Inr ((n, cols), d')
      \<and> cols ! 0 ! 2 = Null"
proof -
  define h where "h = copy_header (take 32 text_table)"
  obtain cols d' where batch:
    "create_arrow_batch utc_platform text_dbf text_schema 0 3 = Inr ((3, cols), d')"
    using text_batch by blast
  have hd: "header text_dbf = Some h" by (simp add: text_dbf_header h_def)
  have len: "unat (field_length (dbf_fields text_dbf ! 0)) = 5"
    by code_simp
  have pos: "nat (record_pointer (copy_header (take 32 text_table)) 0 2
                  + uint (field_offset (dbf_fields text_dbf ! 0))) = 130"
    by code_simp
  have b0: "isspace (mem_buffer text_dbf ! (130 + 0))" by code_simp
  have b1: "isspace (mem_buffer text_dbf ! (130 + 1))" by code_simp
  have b2: "isspace (mem_buffer text_dbf ! (130 + 2))" by code_simp
  have b3: "isspace (mem_buffer text_dbf ! (130 + 3))" by code_simp
  have b4: "isspace (mem_buffer text_dbf ! (130 + 4))" by code_simp
  have bytes: "isspace (mem_buffer text_dbf ! (130 + k))" if "k < 5" for k
  proof -
    from that consider "k = 0" | "k = 1" | "k = 2" | "k = 3" | "k = 4" by linarith
    then show ?thesis using b0 b1 b2 b3 b4 by cases (simp_all only:)
  qed
  have blank: "\<forall>k < unat (field_length (dbf_fields text_dbf ! 0)).
                  isspace (mem_buffer text_dbf !
                    (nat (record_pointer h 0 2 + uint (field_offset (dbf_fields text_dbf ! 0))) + k))"
    using bytes by (simp add: len pos h_def)
  have "cols ! 0 ! 2 = Null"
    using blank_field_yields_null [OF batch hd _ _ blank] by (simp add: text_schema_def)
  then show ?thesis using batch by blast
qed

text \<open>
  Claim C2. Extracting the three rows of the text table leaves a buffer that differs from
  the one it was given: the byte after the last kept byte of every field with trailing
  blanks (offsets 100, 109, 116, 124 and 141) is 0 afterwards, where it was a space. Only
  the byte after the field is written back. A second pass over the same rows then returns
  texts that end in that 0 byte.
\<close>

theorem batch_leaves_terminators:
  "create_arrow_batch utc_platform text_dbf text_schema 0 3 =
     Inr ((3, [[Utf8 (ascii ''AB''), Utf8 (ascii ''CD''), Null],
               [Utf8 (ascii ''RECIFE''), Utf8 (ascii ''NATAL''), Utf8 (ascii ''OLINDA'')]]),
          text_dbf_after)
   \<and> mem_buffer text_dbf ! 100 = 0x20 \<and> mem_buffer text_dbf_after ! 100 = 0
   \<and> map_sum id fst (create_arrow_batch utc_platform text_dbf_after text_schema 0 3) =
     Inr (3, [[Utf8 (ascii ''AB'' @ [0]), Utf8 (ascii ''CD'' @ [0]), Null],
              [Utf8 (ascii ''RECIFE'' @ [0]), Utf8 (ascii ''NATAL'' @ [0]),
               Utf8 (ascii ''OLINDA'' @ [0])]])"
  by code_simp

section \<open>The field catalog\<close>

lemma assign_offsets_length [simp]: "length (assign_offsets off fs) = length fs"
  by (induction fs arbitrary: off) auto

lemma assign_offsets_field_length:
  "i < length fs \<Longrightarrow> field_length (assign_offsets off fs ! i) = field_length (fs ! i)"
  by (induction fs arbitrary: off i) (auto simp: nth_Cons split: nat.splits)

lemma unat_byte_le: "unat (b :: byte) \<le> 255"
  using unsigned_less [of b, where ?'a = nat] by simp

text \<open>The running offset does not wrap as long as the lengths add up to less than \<open>2^32\<close>.\<close>

lemma assign_offsets_offset:
  "i < length fs \<Longrightarrow> unat off + 255 * length fs < 2 ^ 32 \<Longrightarrow>
   unat (field_offset (assign_offsets off fs ! i))
     = unat off + sum_list (map (\<lambda>f. unat (field_length f)) (take i fs))"
proof (induction fs arbitrary: off i)
  case Nil
  then show ?case by simp
next
  case (Cons f fs)
  show ?case
  proof (cases i)
    case 0
    then show ?thesis by simp
  next
    case (Suc j)
    have le: "unat (field_length f) \<le> 255" by (rule unat_byte_le)
    have ucast_eq: "unat (ucast (field_length f) :: 32 word) = unat (field_length f)"
      by (simp add: unsigned_ucast_eq take_bit_nat_eq_self_iff le_less_trans [OF unat_byte_le])
    have sum: "unat (off + ucast (field_length f)) = unat off + unat (field_length f)"
      using Cons.prems le ucast_eq by (simp add: unat_word_ariths)
    have "unat (off + ucast (field_length f)) + 255 * length fs < 2 ^ 32"
      using Cons.prems le sum by simp
    moreover have "j < length fs" using Cons.prems Suc by simp
    ultimately show ?thesis
      using Cons.IH [of j "off + ucast (field_length f)"] Suc sum by simp
  qed
qed

text \<open>A 16-bit header length leaves room for at most 2046 descriptors.\<close>

lemma NumCols_bound: "dbf_NumCols dbf = Inr col \<Longrightarrow> col \<le> 2046"
proof -
  assume a: "dbf_NumCols dbf = Inr col"
  then obtain h where h: "header dbf = Some h"
    by (auto simp: dbf_NumCols_def split: option.splits)
  have "unat (header_length h) < 65536"
    using unsigned_less [of "header_length h", where ?'a = nat] by simp
  then show ?thesis using a h
    by (auto simp: dbf_NumCols_def sizeof_DB_HEADER_def sizeof_DB_FIELD_def split: if_splits)
qed

lemma copy_fields_length [simp]: "length (copy_fields col src) = col"
  by (simp add: copy_fields_def)

text \<open>
  Claim C5. In every field catalog that \<open>dbf_ReadFieldInfo\<close> builds, the offset of field 0
  is 1 (byte 0 of a record is the deletion flag) and the offset of every later field is
  the offset of the field before it plus that field's length.
\<close>

theorem field_offsets_cumulative:
  assumes "dbf_ReadFieldInfo dbf = Inr dbf'"
  shows "dbf_fields dbf' \<noteq> [] \<and>
         unat (field_offset (dbf_fields dbf' ! 0)) = 1 \<and>
         (\<forall>i. 1 \<le> i \<and> i < length (dbf_fields dbf') \<longrightarrow>
            unat (field_offset (dbf_fields dbf' ! i))
              = unat (field_offset (dbf_fields dbf' ! (i - 1)))
                + unat (field_length (dbf_fields dbf' ! (i - 1))))"
proof -
  from assms obtain col where col: "dbf_NumCols dbf = Inr col" "col \<noteq> 0"
    and fs: "dbf_fields dbf' =
               assign_offsets 1 (copy_fields col (drop sizeof_DB_HEADER (mem_buffer dbf)))"
    by (auto simp: dbf_ReadFieldInfo_def split: if_splits sum.splits)
  define raw where "raw = copy_fields col (drop sizeof_DB_HEADER (mem_buffer dbf))"
  have len: "length raw = col" by (simp add: raw_def)
  have bound: "unat (1 :: 32 word) + 255 * length raw < 2 ^ 32"
    using NumCols_bound [OF col(1)] len by simp
  have off: "unat (field_offset (assign_offsets 1 raw ! i))
               = 1 + sum_list (map (\<lambda>f. unat (field_length f)) (take i raw))"
    if "i < length raw" for i
    using assign_offsets_offset [OF that bound] by simp
  have "length (dbf_fields dbf') = col" using fs by simp
  then have ne: "dbf_fields dbf' \<noteq> []" using col(2) by auto
  have first: "unat (field_offset (dbf_fields dbf' ! 0)) = 1"
    using off [of 0] col(2) len fs raw_def by simp
  have step: "unat (field_offset (dbf_fields dbf' ! i))
              = unat (field_offset (dbf_fields dbf' ! (i - 1)))
                + unat (field_length (dbf_fields dbf' ! (i - 1)))"
    if i: "1 \<le> i" "i < length (dbf_fields dbf')" for i
  proof -
    have i1: "i < length raw" "i - 1 < length raw" using i fs raw_def by simp_all
    obtain j where j: "i = Suc j" using i(1) by (cases i) auto
    have tk: "take i raw = take (i - 1) raw @ [raw ! (i - 1)]"
      using i1 j by (simp add: take_Suc_conv_app_nth)
    show ?thesis
      using off [OF i1(1)] off [OF i1(2)] assign_offsets_field_length [OF i1(2), of 1] tk fs raw_def
      by simp
  qed
  from ne first step show ?thesis by blast
qed

theorem field_offsets_cumulative_witness:
  "\<exists>d. dbf_ReadFieldInfo (with_header text_table) = Inr d \<and>
       unat (field_offset (dbf_fields d ! 0)) = 1 \<and>
       unat (field_offset (dbf_fields d ! 1)) = 1 + unat (field_length (dbf_fields d ! 0))"
proof -
  obtain d where d: "dbf_ReadFieldInfo (with_header text_table) = Inr d"
    by (simp add: dbf_ReadFieldInfo_def dbf_NumCols_def sizeof_DB_HEADER_def sizeof_DB_FIELD_def
        copy_header_def rotate2b_def slice_def sample_defs)
  have "1 < length (dbf_fields d)"
    using d
    by (auto simp add: dbf_ReadFieldInfo_def dbf_NumCols_def sizeof_DB_HEADER_def
        sizeof_DB_FIELD_def copy_header_def rotate2b_def slice_def sample_defs)
  then show ?thesis using field_offsets_cumulative [OF d] d by auto
qed

text \<open>When does \<open>dbf_ReadFieldInfo\<close> return its error value: on a buffer shorter than the
  header, or on a field count of 0, and in no other case.\<close>

lemma dbf_ReadFieldInfo_Failure_iff:
  "dbf_ReadFieldInfo dbf = Inl Failure \<longleftrightarrow>
     length (mem_buffer dbf) < 32 \<or> dbf_NumCols dbf = Inr 0"
  by (auto simp: dbf_ReadFieldInfo_def sizeof_DB_HEADER_def sizeof_DB_FIELD_def dbf_NumCols_def
      split: sum.splits option.splits if_splits)

text \<open>
  A file that declares a header of 6 bytes and whose compressed part yields 34 bytes, the
  third of which is 65: the buffer has 40 bytes, its header declares a length of 65 and so
  one field, and the descriptor is copied from bytes 32 to 63 of the 40.
\<close>

lemma truncated_catalog_out_of_bounds:
  assumes "10 \<le> length input" and "input ! 8 = 6" and "input ! 9 = 0"
    and "blast (drop 10 input) = Some out"
    and "length out = 34" and "out ! 2 = 65" and "out ! 3 = 0"
  shows "dbc_load_dbf blast input dbf = Inl OutOfBounds"
proof -
  define buf where "buf = take 6 input @ out"
  have len: "length buf = 40" using assms(1,5) by (simp add: buf_def)
  have hs: "dbf_ReadHeaderSize input = 6"
    using assms(1,2,3) by (simp add: dbf_ReadHeaderSize_def)
  have dec: "dbf_DecompressData blast input 6 (take 6 input) = Inr buf"
    using assms(4) by (simp add: dbf_DecompressData_def buf_def)
  have b8: "buf ! 8 = 65" "buf ! 9 = 0"
    using assms(1,6,7) by (simp_all add: buf_def nth_append)
  have hl: "header_length (copy_header (take 32 buf)) = 65"
    using len b8 by (simp add: copy_header_def rotate2b_def slice_def)
  define d1 where "d1 = dbf\<lparr>mem_buffer := buf,
                           encoding := language_encoding (language (copy_header (take 32 buf))),
                           header := Some (copy_header (take 32 buf))\<rparr>"
  have rh: "dbf_ReadHeaderInfo (dbf\<lparr>mem_buffer := buf\<rparr>) = Inr d1"
    using len by (simp add: dbf_ReadHeaderInfo_def sizeof_DB_HEADER_def Let_def d1_def)
  have nc: "dbf_NumCols d1 = Inr 1"
    using hl by (simp add: dbf_NumCols_def d1_def sizeof_DB_HEADER_def sizeof_DB_FIELD_def)
  have rf: "dbf_ReadFieldInfo d1 = Inl OutOfBounds"
    using nc len by (simp add: dbf_ReadFieldInfo_def sizeof_DB_HEADER_def sizeof_DB_FIELD_def d1_def)
  show ?thesis
    using assms(1) by (simp add: dbc_load_dbf_def hs dec rh rf)
qed

text \<open>
  Claim C3. On \<open>short_file\<close> the buffer is too short for the descriptor of the one field
  that its header declares, and the catalog is not rejected: \<open>dbf_ReadFieldInfo\<close> tests the
  size of the buffer against the size of the header only and then copies the descriptor
  from beyond the end of the buffer.
\<close>

theorem truncated_catalog_not_rejected:
  "dbc_load_dbf short_blast short_file new_DBF = Inl OutOfBounds"
  using truncated_catalog_out_of_bounds [of short_file short_blast short_payload new_DBF]
  by (simp add: short_file_def short_payload_def short_stream_def short_blast_def nth_append)

section \<open>The schema\<close>

text \<open>
  Claim C6. The schema type of a Numeric field (type tag \<open>'N'\<close>, 0x4E) is double when its
  decimal count is positive, and otherwise the 32-bit integer when its declared length is
  at most 9 and the 64-bit integer when it is 10 or more.
\<close>

theorem numeric_schema_type:
  assumes "create_schema dbf = Inr schema" and "i < length schema"
    and "field_type (dbf_fields dbf ! i) = 0x4E"
  shows "snd (schema ! i) =
           (if field_decimals (dbf_fields dbf ! i) > 0 then DOUBLE
            else if unat (field_length (dbf_fields dbf ! i)) \<le> 9 then INT32
            else INT64)"
proof -
  from assms(1) obtain cols where c: "cols \<le> length (dbf_fields dbf)"
    and s: "schema = map (\<lambda>f. (takeWhile (\<lambda>c. c \<noteq> 0) (field_name f), schema_type f))
                        (take cols (dbf_fields dbf))"
    by (cases "dbf_NumCols dbf") (auto simp: create_schema_def not_less split: if_splits)
  have i: "i < cols" using assms(2) s c by simp
  have "snd (schema ! i) = schema_type (dbf_fields dbf ! i)"
    using s i c by simp
  moreover have "(field_length (dbf_fields dbf ! i) \<le> 9)
                   = (unat (field_length (dbf_fields dbf ! i)) \<le> 9)"
    by (simp add: word_le_nat_alt)
  ultimately show ?thesis using assms(3) by (simp add: schema_type_def)
qed

theorem numeric_schema_type_witness:
  "\<exists>schema. create_schema numeric_dbf = Inr schema \<and> length schema = 2 \<and>
     snd (schema ! 0) = INT32 \<and> snd (schema ! 1) = INT64"
proof -
  have nc: "dbf_NumCols numeric_dbf = Inr 2"
    by (simp add: numeric_dbf_def dbf_NumCols_def sizeof_DB_HEADER_def sizeof_DB_FIELD_def
        copy_header_def rotate2b_def slice_def sample_defs)
  have fl: "length (dbf_fields numeric_dbf) = 2"
    by (simp add: numeric_dbf_def)
  obtain schema where s: "create_schema numeric_dbf = Inr schema" and l: "length schema = 2"
    using nc fl by (simp add: create_schema_def)
  have f0: "field_type (dbf_fields numeric_dbf ! 0) = 0x4E"
    "field_decimals (dbf_fields numeric_dbf ! 0) = 0"
    "field_length (dbf_fields numeric_dbf ! 0) = 9"
    by (simp_all add: numeric_dbf_def copy_field_def sample_defs nth_append)
  have f1: "field_type (dbf_fields numeric_dbf ! 1) = 0x4E"
    "field_decimals (dbf_fields numeric_dbf ! 1) = 0"
    "field_length (dbf_fields numeric_dbf ! 1) = 10"
    by (simp_all add: numeric_dbf_def copy_field_def sample_defs nth_append)
  show ?thesis
    using numeric_schema_type [OF s, of 0] numeric_schema_type [OF s, of 1] s l f0 f1
    by simp
qed

section \<open>The header\<close>

text \<open>
  Claim C8. Header parsing succeeds on every buffer of at least 32 bytes and takes the
  encoding from the language byte, byte 29 of the header: 0x01 gives code page 437, 0x02
  gives 850, 0x03 gives 852, 0x65 gives 1252, and every other value gives the default 850.
  The identifiers are the names that \<open>iconv\<close> knows the code pages by.
\<close>

theorem language_byte_selects_encoding:
  assumes "length (mem_buffer dbf) \<ge> 32"
  shows "\<exists>dbf'. dbf_ReadHeaderInfo dbf = Inr dbf' \<and>
           encoding dbf' =
             (if mem_buffer dbf ! 29 = 0x01 then ''CP437''
              else if mem_buffer dbf ! 29 = 0x02 then ''CP850''
              else if mem_buffer dbf ! 29 = 0x03 then ''CP852''
              else if mem_buffer dbf ! 29 = 0x65 then ''CP1252''
              else ''CP850'')"
  using assms
  by (simp add: dbf_ReadHeaderInfo_def sizeof_DB_HEADER_def Let_def copy_header_def
      language_encoding_def)

theorem language_byte_selects_encoding_witness:
  "(\<exists>dbf'. dbf_ReadHeaderInfo (new_DBF\<lparr>mem_buffer := replicate 29 0 @ [0x65, 0, 0]\<rparr>) = Inr dbf'
           \<and> encoding dbf' = ''CP1252'')
   \<and> (\<exists>dbf'. dbf_ReadHeaderInfo (new_DBF\<lparr>mem_buffer := replicate 29 0 @ [0x09, 0, 0]\<rparr>) = Inr dbf'
           \<and> encoding dbf' = ''CP850'')"
  using language_byte_selects_encoding [of "new_DBF\<lparr>mem_buffer := replicate 29 0 @ [0x65, 0, 0]\<rparr>"]
        language_byte_selects_encoding [of "new_DBF\<lparr>mem_buffer := replicate 29 0 @ [0x09, 0, 0]\<rparr>"]
  by (simp add: nth_append)

section \<open>Loading\<close>

text \<open>
  Claim C10. \<open>dbc_load_dbf\<close> fails on every file whose bytes 8 and 9 hold the little-endian
  value 1, as it does on a file too short to hold them: 1 is the value that
  \<open>dbf_ReadHeaderSize\<close> returns for a failed read, so the two cases cannot be told apart.
\<close>

theorem header_length_one_rejected:
  assumes "length input < 10 \<or> (input ! 8 = 1 \<and> input ! 9 = 0)"
  shows "dbc_load_dbf blast input dbf = Inl Failure"
  using assms by (auto simp: dbc_load_dbf_def dbf_ReadHeaderSize_def)

theorem header_length_one_rejected_witness:
  "dbc_load_dbf short_blast ([3, 125, 1, 1, 2, 0, 0, 0, 1, 0] @ replicate 300 0x20) new_DBF
     = Inl Failure"
  using header_length_one_rejected
          [of "[3, 125, 1, 1, 2, 0, 0, 0, 1, 0] @ replicate 300 0x20" short_blast new_DBF]
  by (simp add: nth_append)

end
